theory Spec2Isabelle
  imports
    Complex_Main
    "HOL-Library.AList"
    "HOL-Library.Char_ord"
    "HOL-Library.List_Lexorder"
    "HOL-Library.Product_Lexorder"
    "HOL-Library.Multiset"
begin

section \<open>The autocomplete trie of \<^verbatim>\<open>src/trie.py\<close>\<close>

subsection \<open>Data model\<close>

text \<open>
  \<^verbatim>\<open>_Node\<close> has the slots \<^verbatim>\<open>next\<close> (a dict from a character to the child node),
  \<^verbatim>\<open>end\<close> and \<^verbatim>\<open>score\<close>. The words \<^verbatim>\<open>next\<close> and \<^verbatim>\<open>end\<close> are reserved in Isabelle,
  so the fields are called \<open>nxt\<close> and \<open>end_flag\<close>. The field \<^verbatim>\<open>root\<close> and the methods
  \<^verbatim>\<open>insert\<close> and \<^verbatim>\<open>complete\<close> share their names with constants of the library and are called
  \<open>root_node\<close>, \<open>insert_word\<close> and \<open>complete_prefix\<close>.

  A Python dict keeps its keys in insertion order and \<^verbatim>\<open>items()\<close> iterates in that order, so
  the dict is an association list: a new key is appended at the end, the value of an existing
  key is replaced where it stands (\<open>AList.update\<close>), \<^verbatim>\<open>del d[c]\<close> drops the entry
  (\<open>AList.delete\<close>), \<^verbatim>\<open>d.get(c)\<close> is \<open>map_of d c\<close>. That the keys of a dict are pairwise
  different is the predicate \<open>dict_ok\<close> below.

  A child node is referenced from its parent's dict only, so the object graph is a tree and
  the in-place mutation of a node is the replacement of that node in its parent.

  A character is a \<open>char\<close> (the code points below 256), a Python \<^verbatim>\<open>str\<close> is a \<open>string\<close>,
  whose order (\<open>List_Lexorder\<close> over \<open>Char_ord\<close>) is the order of Python strings: by code
  point, a proper prefix first. A score is a finite Python float; the code only stores,
  negates and compares scores, which is exact, so a score is a \<open>real\<close>. A tuple
  \<^verbatim>\<open>(score, word)\<close> is ordered lexicographically (\<open>Product_Lexorder\<close>), as Python orders
  tuples.
\<close>

datatype node = Node (nxt: "(char \<times> node) list") (end_flag: bool) (score: real)

record trie =
  root_node :: node
  count_words :: int
  count_nodes :: int

text \<open>\<^verbatim>\<open>_Node.__init__\<close> and \<^verbatim>\<open>Trie.__init__\<close>.\<close>

definition new_node :: node where
  "new_node = Node [] False 0"

definition new_trie :: trie where
  "new_trie = \<lparr>root_node = new_node, count_words = 0, count_nodes = 1\<rparr>"

lemma size_child [termination_simp]:
  "(c, child) \<in> set (nxt n) \<Longrightarrow> size child < size n"
proof (cases n)
  case (Node kids e s)
  assume "(c, child) \<in> set (nxt n)"
  then have "(c, child) \<in> set kids"
    using Node by simp
  then have "size_prod (\<lambda>x. 0) size (c, child) \<le> size_list (size_prod (\<lambda>x. 0) size) kids"
    by (simp add: size_list_estimation')
  then show ?thesis
    using Node by simp
qed

lemma size_lookup [termination_simp]:
  "map_of (nxt n) c = Some child \<Longrightarrow> size child < size n"
  by (rule size_child) (erule map_of_SomeD)

subsection \<open>\<^verbatim>\<open>_trace\<close> and \<^verbatim>\<open>contains\<close>\<close>

text \<open>
  \<^verbatim>\<open>_trace\<close> walks down from the root and collects the path of \<^verbatim>\<open>(node, incoming character)\<close>
  pairs, the root with the empty string. A missing transition returns \<^verbatim>\<open>(None, [])\<close>, here
  \<open>None\<close>. \<open>trace_loop\<close> is the \<^verbatim>\<open>for ch in text\<close> loop on the loop state \<^verbatim>\<open>node\<close>, \<^verbatim>\<open>path\<close>.
\<close>

type_synonym path = "(node \<times> string) list"

fun trace_loop :: "node \<Rightarrow> path \<Rightarrow> string \<Rightarrow> (node \<times> path) option" where
  "trace_loop n path [] = Some (n, path)"
| "trace_loop n path (ch # text) =
     (case map_of (nxt n) ch of
        None \<Rightarrow> None
      | Some nx \<Rightarrow> trace_loop nx (path @ [(nx, [ch])]) text)"

definition trace :: "trie \<Rightarrow> string \<Rightarrow> (node \<times> path) option" where
  "trace t text = trace_loop (root_node t) [(root_node t, [])] text"

text \<open>\<^verbatim>\<open>bool(node and node.end)\<close>: a \<^verbatim>\<open>_Node\<close> object is always truthy, only \<^verbatim>\<open>None\<close> is not.\<close>

definition contains :: "trie \<Rightarrow> string \<Rightarrow> bool" where
  "contains t word = (case trace t word of None \<Rightarrow> False | Some (n, _) \<Rightarrow> end_flag n)"

subsection \<open>\<^verbatim>\<open>insert\<close>\<close>

text \<open>
  The loop of \<^verbatim>\<open>insert\<close> descends along the word, creates the missing nodes (each creation
  adds one to \<^verbatim>\<open>_count_nodes\<close>) and finally marks the node it has reached. \<open>insert_loop\<close>
  takes the node the loop stands at, the rest of the word, and the two counters; it returns
  that node as it is after the call, and the counters.
\<close>

fun insert_loop :: "node \<Rightarrow> string \<Rightarrow> real \<Rightarrow> int \<Rightarrow> int \<Rightarrow> node \<times> int \<times> int" where
  "insert_loop n [] freq cw cn =
     (Node (nxt n) True freq, (if \<not> end_flag n then cw + 1 else cw), cn)"
| "insert_loop n (ch # word) freq cw cn =
     (case map_of (nxt n) ch of
        None \<Rightarrow>
          (case insert_loop new_node word freq cw (cn + 1) of
             (child, cw', cn') \<Rightarrow> (Node (AList.update ch child (nxt n)) (end_flag n) (score n), cw', cn'))
      | Some nx \<Rightarrow>
          (case insert_loop nx word freq cw cn of
             (child, cw', cn') \<Rightarrow> (Node (AList.update ch child (nxt n)) (end_flag n) (score n), cw', cn')))"

definition insert_word :: "trie \<Rightarrow> string \<Rightarrow> real \<Rightarrow> trie" where
  "insert_word t word freq =
     (case insert_loop (root_node t) word freq (count_words t) (count_nodes t) of
        (r, cw, cn) \<Rightarrow> \<lparr>root_node = r, count_words = cw, count_nodes = cn\<rparr>)"

subsection \<open>\<^verbatim>\<open>remove\<close>\<close>

text \<open>
  A path entry carries the incoming character as a Python string (empty for the root);
  only a one-character string can be a key of a node's dict.
\<close>

fun dict_has :: "(char \<times> node) list \<Rightarrow> string \<Rightarrow> bool" where
  "dict_has d [c] = (c \<in> set (map fst d))"
| "dict_has d _ = False"

fun dict_del :: "(char \<times> node) list \<Rightarrow> string \<Rightarrow> (char \<times> node) list" where
  "dict_del d [c] = AList.delete c d"
| "dict_del d _ = d"

fun dict_put :: "(char \<times> node) list \<Rightarrow> string \<Rightarrow> node \<Rightarrow> (char \<times> node) list" where
  "dict_put d [c] v = (if c \<in> set (map fst d) then AList.update c v d else d)"
| "dict_put d _ v = d"

text \<open>
  The pruning loop \<^verbatim>\<open>for i in range(len(path) - 1, 0, -1)\<close> reads \<^verbatim>\<open>path[i]\<close> and
  \<^verbatim>\<open>path[i - 1]\<close>, so \<open>prune\<close> runs over the reversed path, two entries at a time, and stops
  when one entry (the root, \<^verbatim>\<open>i = 0\<close>) is left. The nodes of the path are references in Python:
  what the loop sees in \<^verbatim>\<open>current_node\<close> is the node as the earlier iterations left it, here
  the argument \<open>cur\<close>, and the entry of the path holds the node as \<^verbatim>\<open>_trace\<close> saw it. The flag
  \<open>looping\<close> is false once the loop has left through a \<^verbatim>\<open>break\<close>; from there on the walk only
  puts each changed node back into its parent, which the references of Python do by
  themselves. The result is the root after the call and \<^verbatim>\<open>_count_nodes\<close>.
\<close>

fun prune :: "path \<Rightarrow> node \<Rightarrow> bool \<Rightarrow> int \<Rightarrow> node \<times> int" where
  "prune ((_, current_char) # (parent_node, pc) # up) cur looping cn =
     (if looping then
        (if nxt cur \<noteq> [] \<or> end_flag cur then
           prune ((parent_node, pc) # up)
             (Node (dict_put (nxt parent_node) current_char cur) (end_flag parent_node) (score parent_node))
             False cn
         else if dict_has (nxt parent_node) current_char then
           prune ((parent_node, pc) # up)
             (Node (dict_del (nxt parent_node) current_char) (end_flag parent_node) (score parent_node))
             True (cn - 1)
         else
           prune ((parent_node, pc) # up) parent_node False cn)
      else
        prune ((parent_node, pc) # up)
          (Node (dict_put (nxt parent_node) current_char cur) (end_flag parent_node) (score parent_node))
          False cn)"
| "prune _ cur looping cn = (cur, cn)"

definition remove :: "trie \<Rightarrow> string \<Rightarrow> bool \<times> trie" where
  "remove t word =
     (case trace t word of
        None \<Rightarrow> (False, t)
      | Some (n, path) \<Rightarrow>
          if \<not> end_flag n then (False, t)
          else
            (case prune (rev path) (Node (nxt n) False 0) True (count_nodes t) of
               (r, cn) \<Rightarrow> (True, \<lparr>root_node = r, count_words = count_words t - 1, count_nodes = cn\<rparr>)))"

subsection \<open>The heap of \<^verbatim>\<open>heapq\<close>\<close>

text \<open>
  \<^verbatim>\<open>complete\<close> keeps its candidates in a list handled by \<^verbatim>\<open>heapq.heappush\<close> and
  \<^verbatim>\<open>heapq.heappushpop\<close> of the Python standard library. These are the functions of
  \<^verbatim>\<open>Lib/heapq.py\<close>: a binary min-heap in a list, the children of position \<open>p\<close> at \<open>2p + 1\<close> and
  \<open>2p + 2\<close>. Every index they read is inside the list: \<^verbatim>\<open>heappush\<close> appends before it reads the
  last position, \<^verbatim>\<open>heappushpop\<close> reads \<^verbatim>\<open>heap[0]\<close> only of a non-empty heap, and the loops
  compare each position with \<^verbatim>\<open>len(heap)\<close> or with \<^verbatim>\<open>startpos\<close> first.
\<close>

type_synonym heap = "(real \<times> string) list"

function siftdown_loop :: "heap \<Rightarrow> nat \<Rightarrow> nat \<Rightarrow> real \<times> string \<Rightarrow> heap" where
  "siftdown_loop h startpos pos newitem =
     (if pos > startpos then
        (let parentpos = (pos - 1) div 2;
             parent = h ! parentpos
         in if newitem < parent then siftdown_loop (h[pos := parent]) startpos parentpos newitem
            else h[pos := newitem])
      else h[pos := newitem])"
  by pat_completeness auto
termination
  by (relation "measure (\<lambda>(h, startpos, pos, newitem). pos)") auto

definition siftdown :: "heap \<Rightarrow> nat \<Rightarrow> nat \<Rightarrow> heap" where
  "siftdown h startpos pos = siftdown_loop h startpos pos (h ! pos)"

function siftup_loop :: "heap \<Rightarrow> nat \<Rightarrow> heap \<times> nat" where
  "siftup_loop h pos =
     (let endpos = length h;
          childpos = 2 * pos + 1
      in if childpos < endpos then
           (let rightpos = childpos + 1;
                childpos = (if rightpos < endpos \<and> \<not> h ! childpos < h ! rightpos
                            then rightpos else childpos)
            in siftup_loop (h[pos := h ! childpos]) childpos)
         else (h, pos))"
  by pat_completeness auto
termination
  by (relation "measure (\<lambda>(h, pos). length h - pos)") (auto simp: Let_def)

definition siftup :: "heap \<Rightarrow> nat \<Rightarrow> heap" where
  "siftup h pos =
     (let newitem = h ! pos
      in case siftup_loop h pos of (h', pos') \<Rightarrow> siftdown (h'[pos' := newitem]) pos pos')"

definition heappush :: "heap \<Rightarrow> real \<times> string \<Rightarrow> heap" where
  "heappush h item = (let h' = h @ [item] in siftdown h' 0 (length h' - 1))"

text \<open>\<^verbatim>\<open>heappushpop\<close> returns the item it hands back, next to the heap it leaves.\<close>

definition heappushpop :: "heap \<Rightarrow> real \<times> string \<Rightarrow> heap \<times> (real \<times> string)" where
  "heappushpop h item =
     (if h \<noteq> [] \<and> h ! 0 < item then (siftup (h[0 := item]) 0, h ! 0) else (h, item))"

subsection \<open>\<^verbatim>\<open>complete\<close>\<close>

text \<open>
  \<^verbatim>\<open>dfs\<close> mutates the list \<^verbatim>\<open>heap\<close> of the enclosing call; here it takes the heap and returns
  it. The bound \<open>k\<close> is a Python \<^verbatim>\<open>int\<close> and may be negative. \<^verbatim>\<open>n.next[c]\<close> is read for the
  keys of \<^verbatim>\<open>n.next\<close> only, so it cannot raise.
\<close>

fun dfs :: "int \<Rightarrow> node \<Rightarrow> string \<Rightarrow> heap \<Rightarrow> heap" where
  "dfs k n word h =
     fold (\<lambda>c h'. case map_of (nxt n) c of
                     Some child \<Rightarrow> dfs k child (word @ [c]) h'
                   | None \<Rightarrow> h')
       (sort (map fst (nxt n)))
       (if end_flag n then
          (let pair = (score n, word)
           in if int (length h) < k then heappush h pair else fst (heappushpop h pair))
        else h)"

text \<open>\<open>results\<close> is the local variable of that name: the heap sorted by \<^verbatim>\<open>(-score, word)\<close>.\<close>

definition results :: "trie \<Rightarrow> string \<Rightarrow> int \<Rightarrow> (real \<times> string) list" where
  "results t prefix k =
     (case trace t prefix of
        None \<Rightarrow> []
      | Some (n, _) \<Rightarrow> sort_key (\<lambda>x. (- fst x, snd x)) (dfs k n prefix []))"

definition complete_prefix :: "trie \<Rightarrow> string \<Rightarrow> int \<Rightarrow> string list" where
  "complete_prefix t prefix k = map snd (results t prefix k)"

subsection \<open>\<^verbatim>\<open>stats\<close> and \<^verbatim>\<open>items\<close>\<close>

text \<open>
  \<^verbatim>\<open>max\<close> over the depths of the children, taken in the order of \<^verbatim>\<open>n.next.values()\<close>; the
  guard \<^verbatim>\<open>if not n.next\<close> keeps \<^verbatim>\<open>max\<close> from an empty sequence.
\<close>

fun depth :: "node \<Rightarrow> int" where
  "depth n =
     (case map depth (map snd (nxt n)) of
        [] \<Rightarrow> 0
      | d # ds \<Rightarrow> 1 + fold max ds d)"

definition stats :: "trie \<Rightarrow> int \<times> int \<times> int" where
  "stats t = (count_words t, depth (root_node t), count_nodes t)"

fun gather :: "node \<Rightarrow> string \<Rightarrow> (string \<times> real) list \<Rightarrow> (string \<times> real) list" where
  "gather n text output =
     fold (\<lambda>(c, nx) out. gather nx (text @ [c]) out) (nxt n)
       (if end_flag n then output @ [(text, score n)] else output)"

definition items :: "trie \<Rightarrow> (string \<times> real) list" where
  "items t = gather (root_node t) [] []"

subsection \<open>Notions of the specification and of the proofs\<close>

text \<open>
  The height as the specification words it: a node without children has height 0, any other
  node has height 1 + the maximum of the heights of its children.
\<close>

fun height_spec :: "node \<Rightarrow> int" where
  "height_spec n =
     (if nxt n = [] then 0
      else 1 + Max (set (map (\<lambda>child. height_spec child) (map snd (nxt n)))))"

text \<open>
  The node that \<^verbatim>\<open>_trace\<close> reaches from a node along a text, without the path, and
  whether that node is terminal.
\<close>

fun find_node :: "node \<Rightarrow> string \<Rightarrow> node option" where
  "find_node n [] = Some n"
| "find_node n (c # cs) =
     (case map_of (nxt n) c of None \<Rightarrow> None | Some x \<Rightarrow> find_node x cs)"

definition has :: "node \<Rightarrow> string \<Rightarrow> bool" where
  "has n w = (case find_node n w of None \<Rightarrow> False | Some m \<Rightarrow> end_flag m)"

text \<open>
  \<^verbatim>\<open>remove\<close> as one recursion along the word, used to reason about \<open>trace\<close> followed by
  \<open>prune\<close> (lemma \<open>remove_via_rec\<close>): the node after the call, the number of nodes
  detached below it, and whether the pruning loop is still running when it comes back to
  this node.
\<close>

fun remove_rec :: "node \<Rightarrow> string \<Rightarrow> (node \<times> int \<times> bool) option" where
  "remove_rec n [] = (if end_flag n then Some (Node (nxt n) False 0, 0, True) else None)"
| "remove_rec n (c # cs) =
     (case map_of (nxt n) c of
        None \<Rightarrow> None
      | Some x \<Rightarrow>
          (case remove_rec x cs of
             None \<Rightarrow> None
           | Some (x', d, looping) \<Rightarrow>
               if looping \<and> nxt x' = [] \<and> \<not> end_flag x'
               then Some (Node (AList.delete c (nxt n)) (end_flag n) (score n), d + 1, True)
               else Some (Node (AList.update c x' (nxt n)) (end_flag n) (score n), d, False)))"

text \<open>
  The keys of every dict of the tree are pairwise different, as the keys of a Python dict
  are.
\<close>

fun dict_ok :: "node \<Rightarrow> bool" where
  "dict_ok (Node kids e s) = (distinct (map fst kids) \<and> list_all (\<lambda>(c, x). dict_ok x) kids)"

text \<open>
  A dead node has no children and is not terminal. \<open>live n\<close>: no node below \<open>n\<close> is dead
  (\<open>n\<close> itself, the root, may be).
\<close>

fun dead :: "node \<Rightarrow> bool" where
  "dead (Node kids e s) = (kids = [] \<and> \<not> e)"

fun live :: "node \<Rightarrow> bool" where
  "live (Node kids e s) = list_all (\<lambda>(c, x). \<not> dead x \<and> live x) kids"

text \<open>The number of nodes of a tree, its root included, and the number of its terminal nodes.\<close>

fun node_total :: "node \<Rightarrow> int" where
  "node_total (Node kids e s) = 1 + sum_list (map (\<lambda>(c, x). node_total x) kids)"

fun terminal_total :: "node \<Rightarrow> int" where
  "terminal_total (Node kids e s) =
     (if e then 1 else 0) + sum_list (map (\<lambda>(c, x). terminal_total x) kids)"

text \<open>What holds of every trie the interface can build.\<close>

definition trie_inv :: "trie \<Rightarrow> bool" where
  "trie_inv t \<longleftrightarrow> dict_ok (root_node t) \<and> live (root_node t)
     \<and> count_words t = terminal_total (root_node t) \<and> count_nodes t = node_total (root_node t)"

text \<open>
  The calls of the public interface. \<^verbatim>\<open>contains\<close>, \<^verbatim>\<open>complete\<close>, \<^verbatim>\<open>stats\<close> and \<^verbatim>\<open>items\<close>
  assign to no field of the trie or of a node, so the trie after them is the trie before
  them. \<open>run ops\<close> is the trie after the calls \<open>ops\<close> on \<^verbatim>\<open>Trie()\<close>.
\<close>

datatype op =
    Insert string real
  | Remove string
  | Contains string
  | Complete string int
  | Stats
  | Items

fun step :: "trie \<Rightarrow> op \<Rightarrow> trie" where
  "step t (Insert w s) = insert_word t w s"
| "step t (Remove w) = snd (remove t w)"
| "step t (Contains w) = t"
| "step t (Complete p k) = t"
| "step t Stats = t"
| "step t Items = t"

definition run :: "op list \<Rightarrow> trie" where
  "run ops = foldl step new_trie ops"

text \<open>
  Inserting a list of words with their scores, one after the other, and removing a list of
  words, one after the other, with the result of each \<^verbatim>\<open>remove\<close>.
\<close>

fun insert_all :: "trie \<Rightarrow> (string \<times> real) list \<Rightarrow> trie" where
  "insert_all t [] = t"
| "insert_all t ((w, s) # ws) = insert_all (insert_word t w s) ws"

fun remove_all :: "trie \<Rightarrow> string list \<Rightarrow> bool list \<times> trie" where
  "remove_all t [] = ([], t)"
| "remove_all t (w # ws) =
     (case remove t w of (b, t') \<Rightarrow>
        (case remove_all t' ws of (bs, t'') \<Rightarrow> (b # bs, t'')))"

text \<open>
  The candidates of \<^verbatim>\<open>complete\<close>: the pairs \<^verbatim>\<open>(n.score, word)\<close> of the terminal nodes below a
  node, in the order in which \<^verbatim>\<open>dfs\<close> meets them.
\<close>

fun entries :: "node \<Rightarrow> string \<Rightarrow> (real \<times> string) list" where
  "entries n word =
     (if end_flag n then [(score n, word)] else []) @
     concat (map (\<lambda>c. case map_of (nxt n) c of
                          Some child \<Rightarrow> entries child (word @ [c])
                        | None \<Rightarrow> [])
               (sort (map fst (nxt n))))"

text \<open>
  The score stored for a word: the score of the node \<^verbatim>\<open>_trace\<close> reaches, if that node is
  terminal; \<open>entry\<close> is the same from a node.
\<close>

definition score_of :: "trie \<Rightarrow> string \<Rightarrow> real option" where
  "score_of t w =
     (case trace t w of
        None \<Rightarrow> None
      | Some (n, _) \<Rightarrow> if end_flag n then Some (score n) else None)"

definition entry :: "node \<Rightarrow> string \<Rightarrow> real option" where
  "entry n w =
     (case find_node n w of None \<Rightarrow> None | Some m \<Rightarrow> if end_flag m then Some (score m) else None)"

text \<open>The shape of a tree: its keys, in their order, and its terminal flags, without the scores.\<close>

fun shape :: "node \<Rightarrow> node" where
  "shape (Node kids e s) = Node (map (\<lambda>(c, x). (c, shape x)) kids) e 0"

text \<open>
  The heap property of \<^verbatim>\<open>heapq\<close>: no item is smaller than the item at its parent position.
\<close>

definition is_heap :: "heap \<Rightarrow> bool" where
  "is_heap h \<longleftrightarrow> (\<forall>i. 0 < i \<and> i < length h \<longrightarrow> h ! ((i - 1) div 2) \<le> h ! i)"



text \<open>
  The equations of the functions that recurse through the children of a node, and of the
  loops of the heap, are unfolded by hand.
\<close>

declare depth.simps [simp del] height_spec.simps [simp del] dfs.simps [simp del]
  gather.simps [simp del] siftdown_loop.simps [simp del] siftup_loop.simps [simp del]
  entries.simps [simp del]

section \<open>Auxiliary facts\<close>

subsection \<open>Association lists\<close>

lemma map_of_keys: "map_of d c = Some x \<Longrightarrow> c \<in> fst ` set d"
  by (metis map_of_eq_None_iff option.distinct(1))

lemma update_fresh: "map_of d c = None \<Longrightarrow> AList.update c v d = d @ [(c, v)]"
  by (induction d) (auto split: if_splits)

lemma update_not_Nil: "AList.update c v d \<noteq> []"
  by (cases d) auto

lemma sum_update:
  fixes f :: "'a \<times> 'b \<Rightarrow> int"
  shows "map_of d c = Some x \<Longrightarrow>
    sum_list (map f (AList.update c v d)) = sum_list (map f d) - f (c, x) + f (c, v)"
  by (induction d) (auto split: if_splits)

lemma sum_delete:
  fixes f :: "'a \<times> 'b \<Rightarrow> int"
  shows "distinct (map fst d) \<Longrightarrow> map_of d c = Some x \<Longrightarrow>
    sum_list (map f (AList.delete c d)) = sum_list (map f d) - f (c, x)"
proof (induction d)
  case Nil
  then show ?case by simp
next
  case (Cons p d)
  show ?case
  proof (cases "fst p = c")
    case True
    then have "c \<notin> fst ` set d"
      using Cons.prems(1) by auto
    then have "AList.delete c d = d"
      by (simp add: AList.delete_id)
    then show ?thesis
      using True Cons.prems(2) by (cases p) (simp add: )
  next
    case False
    then show ?thesis
      using Cons by (cases p) (simp add: )
  qed
qed

lemma list_all_update:
  "list_all P d \<Longrightarrow> P (c, v) \<Longrightarrow> list_all P (AList.update c v d)"
  by (induction d) auto

lemma list_all_delete:
  "list_all P d \<Longrightarrow> list_all P (AList.delete c d)"
  by (simp add: AList.delete_eq list_all_iff)

lemma map_of_list_all:
  "map_of d c = Some x \<Longrightarrow> list_all P d \<Longrightarrow> P (c, x)"
  by (auto simp: list_all_iff dest: map_of_SomeD)

subsection \<open>The node of a word\<close>

lemma trace_loop_find:
  "map_option fst (trace_loop n path w) = find_node n w"
  by (induction w arbitrary: n path) (auto split: option.splits)

lemma trace_find: "map_option fst (trace t w) = find_node (root_node t) w"
  by (simp add: trace_def trace_loop_find)

lemma contains_find:
  "contains t w = (case find_node (root_node t) w of None \<Rightarrow> False | Some m \<Rightarrow> end_flag m)"
  using trace_find [of t w] by (auto simp: contains_def split: option.splits)

lemma has_Nil [simp]: "has n [] = end_flag n"
  by (simp add: has_def)

lemma has_Cons:
  "has n (c # cs) = (case map_of (nxt n) c of None \<Rightarrow> False | Some x \<Rightarrow> has x cs)"
  by (simp add: has_def split: option.splits)

lemma contains_has: "contains t w = has (root_node t) w"
  by (simp add: contains_find has_def)

subsection \<open>\<^verbatim>\<open>remove\<close> as a recursion\<close>

lemma remove_rec_None:
  "remove_rec n w = None \<longleftrightarrow> (case find_node n w of None \<Rightarrow> True | Some m \<Rightarrow> \<not> end_flag m)"
proof (induction w arbitrary: n)
  case Nil
  show ?case by simp
next
  case (Cons c cs)
  show ?case
  proof (cases "map_of (nxt n) c")
    case None
    then show ?thesis by simp
  next
    case (Some x)
    show ?thesis
    proof (cases "remove_rec x cs")
      case None
      then show ?thesis
        using Some Cons [of x] by simp
    next
      case (Some r)
      then have "remove_rec x cs \<noteq> None"
        by simp
      then have "\<not> (case find_node x cs of None \<Rightarrow> True | Some m \<Rightarrow> \<not> end_flag m)"
        using Cons [of x] by simp
      then show ?thesis
        using Some \<open>map_of (nxt n) c = Some x\<close> by (cases r) (auto split: option.splits)
    qed
  qed
qed

lemma prune_remove_rec:
  "trace_loop n (pre @ [(n, s)]) w = Some (m, p) \<Longrightarrow> end_flag m \<Longrightarrow>
     \<exists>n' d lp. remove_rec n w = Some (n', d, lp)
       \<and> prune (rev p) (Node (nxt m) False 0) True cn = prune ((n, s) # rev pre) n' lp (cn - d)"
proof (induction w arbitrary: n pre s)
  case Nil
  then have "p = pre @ [(n, s)]" "m = n"
    by auto
  then show ?case
    using Nil by auto
next
  case (Cons c cs)
  from Cons.prems obtain x where x: "map_of (nxt n) c = Some x"
    and tr: "trace_loop x ((pre @ [(n, s)]) @ [(x, [c])]) cs = Some (m, p)"
    by (auto split: option.splits)
  from Cons.IH [OF tr Cons.prems(2)] obtain x' d lp where
    rr: "remove_rec x cs = Some (x', d, lp)"
    and pr: "prune (rev p) (Node (nxt m) False 0) True cn
               = prune ((x, [c]) # (n, s) # rev pre) x' lp (cn - d)"
    by auto
  have key: "c \<in> fst ` set (nxt n)"
    using x by (rule map_of_keys)
  show ?case
  proof (cases "lp \<and> nxt x' = [] \<and> \<not> end_flag x'")
    case True
    then show ?thesis
      using x rr pr key by (auto simp: algebra_simps)
  next
    case False
    then show ?thesis
      using x rr pr key by auto
  qed
qed

lemma remove_via_rec:
  "remove t w =
     (case remove_rec (root_node t) w of
        None \<Rightarrow> (False, t)
      | Some (r, d, lp) \<Rightarrow>
          (True, \<lparr>root_node = r, count_words = count_words t - 1, count_nodes = count_nodes t - d\<rparr>))"
proof (cases "trace t w")
  case None
  then have "find_node (root_node t) w = None"
    using trace_find [of t w] by simp
  then have "remove_rec (root_node t) w = None"
    by (simp add: remove_rec_None)
  then show ?thesis
    using None by (simp add: remove_def)
next
  case (Some a)
  then obtain m p where mp: "trace t w = Some (m, p)"
    by (cases a) auto
  then have f: "find_node (root_node t) w = Some m"
    using trace_find [of t w] by simp
  show ?thesis
  proof (cases "end_flag m")
    case False
    then have "remove_rec (root_node t) w = None"
      using f by (simp add: remove_rec_None)
    then show ?thesis
      using mp False by (simp add: remove_def)
  next
    case True
    from mp have "trace_loop (root_node t) ([] @ [(root_node t, [])]) w = Some (m, p)"
      by (simp add: trace_def)
    from prune_remove_rec [OF this True, of "count_nodes t"] obtain n' d lp where
      "remove_rec (root_node t) w = Some (n', d, lp)"
      "prune (rev p) (Node (nxt m) False 0) True (count_nodes t) = (n', count_nodes t - d)"
      by auto
    then show ?thesis
      using mp True by (simp add: remove_def)
  qed
qed

subsection \<open>The invariant\<close>

lemma new_node_facts [simp]:
  "dict_ok new_node" "live new_node" "node_total new_node = 1" "terminal_total new_node = 0"
  "nxt new_node = []" "\<not> end_flag new_node" "score new_node = 0"
  by (simp_all add: new_node_def)

lemma dict_ok_iff: "dict_ok n \<longleftrightarrow> distinct (map fst (nxt n)) \<and> list_all (\<lambda>(c, x). dict_ok x) (nxt n)"
  by (cases n) simp

lemma live_iff: "live n \<longleftrightarrow> list_all (\<lambda>(c, x). \<not> dead x \<and> live x) (nxt n)"
  by (cases n) simp

lemma dead_iff: "dead n \<longleftrightarrow> nxt n = [] \<and> \<not> end_flag n"
  by (cases n) simp

lemma node_total_eq: "node_total n = 1 + sum_list (map (\<lambda>(c, x). node_total x) (nxt n))"
  by (cases n) simp

lemma terminal_total_eq:
  "terminal_total n = (if end_flag n then 1 else 0) + sum_list (map (\<lambda>(c, x). terminal_total x) (nxt n))"
  by (cases n) simp

lemma dead_totals: "dead n \<Longrightarrow> node_total n = 1 \<and> terminal_total n = 0"
  by (cases n) simp

lemma insert_loop_dict_ok:
  "insert_loop n w f cw cn = (n', cw', cn') \<Longrightarrow> dict_ok n \<Longrightarrow> dict_ok n'"
proof (induction w arbitrary: n n' cw cn cw' cn')
  case Nil
  then show ?case by (auto simp: dict_ok_iff [of n])
next
  case (Cons c cs)
  show ?case
  proof (cases "map_of (nxt n) c")
    case None
    obtain x' a b where r: "insert_loop new_node cs f cw (cn + 1) = (x', a, b)"
      by (cases "insert_loop new_node cs f cw (cn + 1)") auto
    then have "dict_ok x'"
      using Cons.IH by simp
    then show ?thesis
      using Cons.prems None r
      by (auto simp: dict_ok_iff [of n] distinct_update intro!: list_all_update)
  next
    case (Some x)
    obtain x' a b where r: "insert_loop x cs f cw cn = (x', a, b)"
      by (cases "insert_loop x cs f cw cn") auto
    have "dict_ok x"
      using map_of_list_all [OF Some] Cons.prems(2) by (auto simp: dict_ok_iff [of n])
    then have "dict_ok x'"
      using Cons.IH [OF r] by simp
    then show ?thesis
      using Cons.prems Some r
      by (auto simp: dict_ok_iff [of n] distinct_update intro!: list_all_update)
  qed
qed

lemma insert_loop_not_dead:
  "insert_loop n w f cw cn = (n', cw', cn') \<Longrightarrow> \<not> dead n'"
  by (cases w) (auto simp: dead_iff split: option.splits prod.splits)

lemma insert_loop_live:
  "insert_loop n w f cw cn = (n', cw', cn') \<Longrightarrow> live n \<Longrightarrow> live n'"
proof (induction w arbitrary: n n' cw cn cw' cn')
  case Nil
  then show ?case by (auto simp: live_iff [of n])
next
  case (Cons c cs)
  show ?case
  proof (cases "map_of (nxt n) c")
    case None
    obtain x' a b where r: "insert_loop new_node cs f cw (cn + 1) = (x', a, b)"
      by (cases "insert_loop new_node cs f cw (cn + 1)") auto
    then have "live x'" "\<not> dead x'"
      using Cons.IH insert_loop_not_dead by auto
    then show ?thesis
      using Cons.prems None r
      by (auto simp: live_iff [of n] intro!: list_all_update)
  next
    case (Some x)
    obtain x' a b where r: "insert_loop x cs f cw cn = (x', a, b)"
      by (cases "insert_loop x cs f cw cn") auto
    have "live x"
      using map_of_list_all [OF Some] Cons.prems(2) by (auto simp: live_iff [of n])
    then have "live x'" "\<not> dead x'"
      using Cons.IH [OF r] insert_loop_not_dead [OF r] by auto
    then show ?thesis
      using Cons.prems Some r
      by (auto simp: live_iff [of n] intro!: list_all_update)
  qed
qed

lemma insert_loop_counts:
  "insert_loop n w f cw cn = (n', cw', cn') \<Longrightarrow>
     cn' = cn + node_total n' - node_total n \<and> cw' = cw + terminal_total n' - terminal_total n"
proof (induction w arbitrary: n n' cw cn cw' cn')
  case Nil
  then show ?case by (auto simp: node_total_eq [of n] terminal_total_eq [of n])
next
  case (Cons c cs)
  show ?case
  proof (cases "map_of (nxt n) c")
    case None
    obtain x' a b where r: "insert_loop new_node cs f cw (cn + 1) = (x', a, b)"
      by (cases "insert_loop new_node cs f cw (cn + 1)") auto
    from Cons.IH [OF r] have "b = cn + node_total x'" "a = cw + terminal_total x'"
      by auto
    then show ?thesis
      using Cons.prems None r
      by (auto simp: node_total_eq [of n] terminal_total_eq [of n] update_fresh)
  next
    case (Some x)
    obtain x' a b where r: "insert_loop x cs f cw cn = (x', a, b)"
      by (cases "insert_loop x cs f cw cn") auto
    from Cons.IH [OF r] have "b = cn + node_total x' - node_total x"
      "a = cw + terminal_total x' - terminal_total x"
      by auto
    then show ?thesis
      using Cons.prems Some r
      by (auto simp: node_total_eq [of n] terminal_total_eq [of n] sum_update [OF Some])
  qed
qed

lemma remove_rec_dict_ok:
  "remove_rec n w = Some (n', d, lp) \<Longrightarrow> dict_ok n \<Longrightarrow> dict_ok n'"
proof (induction w arbitrary: n n' d lp)
  case Nil
  then show ?case by (auto simp: dict_ok_iff [of n] split: if_splits)
next
  case (Cons c cs)
  from Cons.prems(1) obtain x x' d0 lp0 where x: "map_of (nxt n) c = Some x"
    and r: "remove_rec x cs = Some (x', d0, lp0)"
    by (auto split: option.splits)
  have "dict_ok x"
    using map_of_list_all [OF x] Cons.prems(2) by (auto simp: dict_ok_iff [of n])
  then have "dict_ok x'"
    using Cons.IH [OF r] by simp
  then show ?case
    using Cons.prems x r
    by (auto simp: dict_ok_iff [of n] distinct_update distinct_delete
        intro!: list_all_update list_all_delete split: if_splits)
qed

lemma remove_rec_counts:
  "remove_rec n w = Some (n', d, lp) \<Longrightarrow> dict_ok n \<Longrightarrow>
     node_total n' = node_total n - d \<and> terminal_total n' = terminal_total n - 1"
proof (induction w arbitrary: n n' d lp)
  case Nil
  then show ?case
    by (auto simp: node_total_eq [of n] terminal_total_eq [of n] split: if_splits)
next
  case (Cons c cs)
  from Cons.prems(1) obtain x x' d0 lp0 where x: "map_of (nxt n) c = Some x"
    and r: "remove_rec x cs = Some (x', d0, lp0)"
    by (auto split: option.splits)
  have okn: "distinct (map fst (nxt n))"
    using Cons.prems(2) by (simp add: dict_ok_iff [of n])
  have "dict_ok x"
    using map_of_list_all [OF x] Cons.prems(2) by (auto simp: dict_ok_iff [of n])
  from Cons.IH [OF r this] have ih: "node_total x' = node_total x - d0"
    "terminal_total x' = terminal_total x - 1"
    by auto
  show ?case
  proof (cases "lp0 \<and> nxt x' = [] \<and> \<not> end_flag x'")
    case True
    then have "dead x'"
      by (simp add: dead_iff)
    then have "node_total x = d0 + 1" "terminal_total x = 1"
      using ih dead_totals [of x'] by auto
    moreover have "n' = Node (AList.delete c (nxt n)) (end_flag n) (score n)" "d = d0 + 1"
      using Cons.prems(1) x r True by auto
    ultimately show ?thesis
      by (simp add: node_total_eq [of n] terminal_total_eq [of n] sum_delete [OF okn x])
  next
    case False
    then have "n' = Node (AList.update c x' (nxt n)) (end_flag n) (score n)" "d = d0"
      using Cons.prems(1) x r by auto
    then show ?thesis
      using ih by (simp add: node_total_eq [of n] terminal_total_eq [of n] sum_update [OF x])
  qed
qed

lemma remove_rec_live:
  "remove_rec n w = Some (n', d, lp) \<Longrightarrow> live n \<Longrightarrow> live n' \<and> (\<not> lp \<longrightarrow> \<not> dead n')"
proof (induction w arbitrary: n n' d lp)
  case Nil
  then show ?case by (auto simp: live_iff [of n] split: if_splits)
next
  case (Cons c cs)
  from Cons.prems(1) obtain x x' d0 lp0 where x: "map_of (nxt n) c = Some x"
    and r: "remove_rec x cs = Some (x', d0, lp0)"
    by (auto split: option.splits)
  have "live x"
    using map_of_list_all [OF x] Cons.prems(2) by (auto simp: live_iff [of n])
  from Cons.IH [OF r this] have ih: "live x'" "\<not> lp0 \<longrightarrow> \<not> dead x'"
    by auto
  show ?case
  proof (cases "lp0 \<and> nxt x' = [] \<and> \<not> end_flag x'")
    case True
    then have "n' = Node (AList.delete c (nxt n)) (end_flag n) (score n)" "lp"
      using Cons.prems(1) x r by auto
    then show ?thesis
      using Cons.prems(2) by (auto simp: live_iff [of n] intro!: list_all_delete)
  next
    case False
    then have n': "n' = Node (AList.update c x' (nxt n)) (end_flag n) (score n)"
      using Cons.prems(1) x r by auto
    have "\<not> dead x'"
      using False ih(2) by (auto simp: dead_iff)
    then show ?thesis
      using Cons.prems(2) ih(1) n'
      by (auto simp: live_iff [of n] update_not_Nil intro!: list_all_update)
  qed
qed

lemma inv_new: "trie_inv new_trie"
  by (simp add: trie_inv_def new_trie_def)

lemma inv_insert: "trie_inv t \<Longrightarrow> trie_inv (insert_word t w s)"
proof -
  assume a: "trie_inv t"
  obtain r cw cn where r: "insert_loop (root_node t) w s (count_words t) (count_nodes t) = (r, cw, cn)"
    by (cases "insert_loop (root_node t) w s (count_words t) (count_nodes t)") auto
  have eq: "insert_word t w s = \<lparr>root_node = r, count_words = cw, count_nodes = cn\<rparr>"
    by (simp add: insert_word_def r)
  from a insert_loop_dict_ok [OF r] insert_loop_live [OF r] insert_loop_counts [OF r]
  show ?thesis
    unfolding eq trie_inv_def by simp
qed

lemma inv_remove: "trie_inv t \<Longrightarrow> trie_inv (snd (remove t w))"
proof (cases "remove_rec (root_node t) w")
  case None
  assume "trie_inv t"
  then show ?thesis
    using None by (simp add: remove_via_rec)
next
  case (Some a)
  assume a: "trie_inv t"
  obtain r d lp where r: "remove_rec (root_node t) w = Some (r, d, lp)"
    using Some by (cases a) auto
  have eq: "snd (remove t w)
      = \<lparr>root_node = r, count_words = count_words t - 1, count_nodes = count_nodes t - d\<rparr>"
    by (simp add: remove_via_rec r)
  from a remove_rec_dict_ok [OF r] remove_rec_live [OF r] remove_rec_counts [OF r]
  show ?thesis
    unfolding eq trie_inv_def by simp
qed

lemma inv_step: "trie_inv t \<Longrightarrow> trie_inv (step t a)"
  by (cases a) (simp_all add: inv_insert inv_remove)

lemma inv_foldl: "trie_inv t \<Longrightarrow> trie_inv (foldl step t ops)"
  by (induction ops arbitrary: t) (simp_all add: inv_step)

lemma inv_run: "trie_inv (run ops)"
  by (simp add: run_def inv_foldl inv_new)

subsection \<open>The stored words\<close>

lemma has_new_node [simp]: "has new_node w = False"
  by (cases w) (simp_all add: has_Cons)

lemma has_insert_loop:
  "insert_loop n w f cw cn = (n', cw', cn') \<Longrightarrow> has n' v = (v = w \<or> has n v)"
proof (induction w arbitrary: n n' cw cn cw' cn' v)
  case Nil
  then show ?case
    by (cases v) (auto simp: has_Cons)
next
  case (Cons c cs)
  show ?case
  proof (cases v)
    case Nil
    then show ?thesis
      using Cons.prems by (auto split: option.splits prod.splits)
  next
    case (Cons c' v')
    show ?thesis
    proof (cases "map_of (nxt n) c")
      case None
      obtain x' a b where r: "insert_loop new_node cs f cw (cn + 1) = (x', a, b)"
        by (cases "insert_loop new_node cs f cw (cn + 1)") auto
      have n': "n' = Node (AList.update c x' (nxt n)) (end_flag n) (score n)"
        using Cons.prems None r by simp
      from Cons.IH [OF r] have "has x' v' = (v' = cs)"
        by simp
      then show ?thesis
        using None by (simp add: Cons n' has_Cons update_conv')
    next
      case (Some x)
      obtain x' a b where r: "insert_loop x cs f cw cn = (x', a, b)"
        by (cases "insert_loop x cs f cw cn") auto
      have n': "n' = Node (AList.update c x' (nxt n)) (end_flag n) (score n)"
        using Cons.prems Some r by simp
      from Cons.IH [OF r] have "has x' v' = (v' = cs \<or> has x v')"
        by simp
      then show ?thesis
        using Some by (simp add: Cons n' has_Cons update_conv')
    qed
  qed
qed

lemma dead_has: "dead n \<Longrightarrow> has n v = False"
  by (cases v) (simp_all add: dead_iff has_Cons)

lemma has_remove_rec:
  "remove_rec n w = Some (n', d, lp) \<Longrightarrow> has n' v = (v \<noteq> w \<and> has n v)"
proof (induction w arbitrary: n n' d lp v)
  case Nil
  then show ?case
    by (cases v) (auto simp: has_Cons split: if_splits)
next
  case (Cons c cs)
  from Cons.prems(1) obtain x x' d0 lp0 where x: "map_of (nxt n) c = Some x"
    and r: "remove_rec x cs = Some (x', d0, lp0)"
    by (auto split: option.splits)
  note ih = Cons.IH [OF r]
  show ?case
  proof (cases "lp0 \<and> nxt x' = [] \<and> \<not> end_flag x'")
    case True
    then have n': "n' = Node (AList.delete c (nxt n)) (end_flag n) (score n)"
      using Cons.prems(1) x r by auto
    have "dead x'"
      using True by (simp add: dead_iff)
    then have gone: "\<And>u. (u \<noteq> cs \<and> has x u) = False"
      using ih dead_has by blast
    show ?thesis
    proof (cases v)
      case Nil
      then show ?thesis by (simp add: n')
    next
      case (Cons c' v')
      then show ?thesis
        using x gone [of v'] by (auto simp: n' has_Cons delete_conv')
    qed
  next
    case False
    then have n': "n' = Node (AList.update c x' (nxt n)) (end_flag n) (score n)"
      using Cons.prems(1) x r by auto
    show ?thesis
    proof (cases v)
      case Nil
      then show ?thesis by (simp add: n')
    next
      case (Cons c' v')
      then show ?thesis
        using x ih [of v'] by (auto simp: n' has_Cons update_conv')
    qed
  qed
qed

lemma contains_insert: "contains (insert_word t w s) v = (v = w \<or> contains t v)"
proof -
  obtain r cw cn where r: "insert_loop (root_node t) w s (count_words t) (count_nodes t) = (r, cw, cn)"
    by (cases "insert_loop (root_node t) w s (count_words t) (count_nodes t)") auto
  have eq: "insert_word t w s = \<lparr>root_node = r, count_words = cw, count_nodes = cn\<rparr>"
    by (simp add: insert_word_def r)
  show ?thesis
    using has_insert_loop [OF r, of v] by (simp add: contains_has eq)
qed

lemma remove_rec_has: "remove_rec n w \<noteq> None \<longleftrightarrow> has n w"
  by (auto simp: remove_rec_None has_def split: option.splits)

lemma remove_result: "fst (remove t w) = contains t w"
  using remove_rec_has [of "root_node t" w]
  by (auto simp: remove_via_rec contains_has split: option.splits)

lemma contains_remove: "contains (snd (remove t w)) v = (v \<noteq> w \<and> contains t v)"
proof (cases "remove_rec (root_node t) w")
  case None
  then have "\<not> contains t w"
    using remove_rec_has [of "root_node t" w] by (simp add: contains_has)
  then show ?thesis
    using None by (auto simp: remove_via_rec)
next
  case (Some a)
  obtain r d lp where r: "remove_rec (root_node t) w = Some (r, d, lp)"
    using Some by (cases a) auto
  show ?thesis
    using has_remove_rec [OF r, of v] by (simp add: contains_has remove_via_rec r)
qed

lemma live_has: "live n \<Longrightarrow> nxt n \<noteq> [] \<Longrightarrow> \<exists>v. has n v"
proof (induction n rule: node.induct)
  case (Node kids e s)
  from Node.prems(2) obtain c x rest where kids: "kids = (c, x) # rest"
    by (cases kids) auto
  have x: "\<not> dead x" "live x"
    using Node.prems(1) kids by auto
  have look: "map_of (nxt (Node kids e s)) c = Some x"
    using kids by simp
  show ?case
  proof (cases "end_flag x")
    case True
    then have "has (Node kids e s) [c]"
      using look by (simp add: has_Cons)
    then show ?thesis ..
  next
    case False
    then have "nxt x \<noteq> []"
      using x(1) by (simp add: dead_iff)
    moreover have "(c, x) \<in> set kids" "x \<in> Basic_BNFs.snds (c, x)"
      using kids by auto
    ultimately obtain v where "has x v"
      using Node.IH x(2) by blast
    then have "has (Node kids e s) (c # v)"
      using look by (simp add: has_Cons)
    then show ?thesis ..
  qed
qed

lemma inv_empty:
  assumes "trie_inv t" and "\<And>v. \<not> contains t v"
  shows "nxt (root_node t) = [] \<and> \<not> end_flag (root_node t) \<and> count_nodes t = 1 \<and> count_words t = 0"
proof -
  have none: "\<And>v. \<not> has (root_node t) v"
    using assms(2) by (simp add: contains_has)
  have "nxt (root_node t) = []"
    using live_has [of "root_node t"] assms(1) none by (auto simp: trie_inv_def)
  moreover have "\<not> end_flag (root_node t)"
    using none [of "[]"] by simp
  ultimately show ?thesis
    using assms(1) by (simp add: trie_inv_def node_total_eq [of "root_node t"] terminal_total_eq [of "root_node t"])
qed

lemma live_find:
  "live n \<Longrightarrow> find_node n w = Some m \<Longrightarrow> w \<noteq> [] \<Longrightarrow> \<not> dead m"
proof (induction w arbitrary: n)
  case Nil
  then show ?case by simp
next
  case (Cons c cs)
  from Cons.prems(2) obtain x where x: "map_of (nxt n) c = Some x" and f: "find_node x cs = Some m"
    by (auto split: option.splits)
  have "\<not> dead x \<and> live x"
    using map_of_list_all [OF x] Cons.prems(1) by (auto simp: live_iff [of n])
  then show ?case
    using Cons.IH [of x] f by (cases cs) auto
qed

lemma contains_insert_all:
  "contains (insert_all t ws) v = (v \<in> fst ` set ws \<or> contains t v)"
  by (induction t ws rule: insert_all.induct) (auto simp: contains_insert)

lemma inv_insert_all: "trie_inv t \<Longrightarrow> trie_inv (insert_all t ws)"
  by (induction t ws rule: insert_all.induct) (auto simp: inv_insert)

lemma remove_all_present:
  "trie_inv t \<Longrightarrow> distinct rs \<Longrightarrow> (\<And>w. w \<in> set rs \<Longrightarrow> contains t w) \<Longrightarrow>
     fst (remove_all t rs) = replicate (length rs) True
     \<and> trie_inv (snd (remove_all t rs))
     \<and> (\<forall>v. contains (snd (remove_all t rs)) v = (v \<notin> set rs \<and> contains t v))"
proof (induction rs arbitrary: t)
  case Nil
  then show ?case by simp
next
  case (Cons w rs)
  obtain b t' where r: "remove t w = (b, t')"
    by (cases "remove t w") auto
  have b: "b"
    using remove_result [of t w] r Cons.prems(3) by simp
  have t': "t' = snd (remove t w)"
    using r by simp
  have trie_inv': "trie_inv t'"
    unfolding t' using Cons.prems(1) by (rule inv_remove)
  have c': "\<And>v. contains t' v = (v \<noteq> w \<and> contains t v)"
    unfolding t' by (rule contains_remove)
  have pres: "\<And>u. u \<in> set rs \<Longrightarrow> contains t' u"
  proof -
    fix u
    assume u: "u \<in> set rs"
    then have "u \<noteq> w"
      using Cons.prems(2) by auto
    moreover have "contains t u"
      using u by (simp add: Cons.prems(3))
    ultimately show "contains t' u"
      by (simp add: c')
  qed
  have drs: "distinct rs"
    using Cons.prems(2) by simp
  obtain bs t'' where rr: "remove_all t' rs = (bs, t'')"
    by (cases "remove_all t' rs") auto
  from Cons.IH [OF trie_inv' drs pres]
  have ih1: "bs = replicate (length rs) True"
    and ih2: "trie_inv t''"
    and ih3: "\<And>v. contains t'' v = (v \<notin> set rs \<and> contains t' v)"
    by (simp_all add: rr)
  have whole: "remove_all t (w # rs) = (b # bs, t'')"
    by (simp add: r rr)
  have "fst (remove_all t (w # rs)) = replicate (length (w # rs)) True"
    unfolding whole using b ih1 by simp
  moreover have "trie_inv (snd (remove_all t (w # rs)))"
    unfolding whole using ih2 by simp
  moreover have "\<forall>v. contains (snd (remove_all t (w # rs))) v = (v \<notin> set (w # rs) \<and> contains t v)"
    unfolding whole by (auto simp: ih3 c')
  ultimately show ?case
    by (intro conjI)
qed

subsection \<open>The heap\<close>

lemma length_siftdown_loop [simp]: "length (siftdown_loop h s p x) = length h"
  by (induction h s p x rule: siftdown_loop.induct) (subst siftdown_loop.simps, simp add: Let_def)

lemma mset_swap_update:
  "p < length h \<Longrightarrow> q < length h \<Longrightarrow> p \<noteq> q \<Longrightarrow>
     mset (h[p := h ! q, q := x]) = mset (h[p := x])"
  by (simp add: mset_update nth_list_update)

lemma mset_siftdown_loop:
  "p < length h \<Longrightarrow> mset (siftdown_loop h s p x) = mset (h[p := x])"
proof (induction h s p x rule: siftdown_loop.induct)
  case (1 h startpos pos newitem)
  show ?case
  proof (cases "pos > startpos \<and> newitem < h ! ((pos - 1) div 2)")
    case True
    let ?pp = "(pos - 1) div 2"
    have pp: "?pp < pos"
      using True by auto
    then have ppl: "?pp < length (h[pos := h ! ?pp])"
      using "1.prems" by simp
    have "siftdown_loop h startpos pos newitem
            = siftdown_loop (h[pos := h ! ?pp]) startpos ?pp newitem"
      using True by (subst siftdown_loop.simps) (simp add: Let_def)
    also have "mset \<dots> = mset (h[pos := h ! ?pp, ?pp := newitem])"
      using True by (intro "1.IH" [OF _ refl refl _ ppl]) auto
    also have "\<dots> = mset (h[pos := newitem])"
      using "1.prems" pp by (intro mset_swap_update) auto
    finally show ?thesis .
  next
    case False
    then show ?thesis
      by (subst siftdown_loop.simps) (auto simp: Let_def)
  qed
qed

lemma length_siftdown [simp]: "length (siftdown h s p) = length h"
  by (simp add: siftdown_def)

lemma mset_siftdown: "p < length h \<Longrightarrow> mset (siftdown h s p) = mset h"
  by (simp add: siftdown_def mset_siftdown_loop)

lemma siftup_loop_props:
  "siftup_loop h p = (h', p') \<Longrightarrow> p < length h \<Longrightarrow>
     length h' = length h \<and> p' < length h \<and> mset (h'[p' := x]) = mset (h[p := x])"
proof (induction h p arbitrary: h' p' rule: siftup_loop.induct)
  case (1 h pos)
  show ?case
  proof (cases "2 * pos + 1 < length h")
    case True
    let ?c = "if 2 * pos + 1 + 1 < length h \<and> \<not> h ! (2 * pos + 1) < h ! (2 * pos + 1 + 1)
                then 2 * pos + 1 + 1 else 2 * pos + 1"
    have c: "?c < length h" "?c \<noteq> pos"
      using True by auto
    have step: "siftup_loop h pos = siftup_loop (h[pos := h ! ?c]) ?c"
      using True by (subst siftup_loop.simps) (simp add: Let_def)
    then have rec: "siftup_loop (h[pos := h ! ?c]) ?c = (h', p')"
      using "1.prems"(1) by simp
    have cl: "?c < length (h[pos := h ! ?c])"
      using c by simp
    have ih: "length h' = length (h[pos := h ! ?c]) \<and> p' < length (h[pos := h ! ?c])
        \<and> mset (h'[p' := x]) = mset (h[pos := h ! ?c, ?c := x])"
      using True by (intro "1.IH" [OF refl refl _ refl refl rec cl]) auto
    moreover have "mset (h[pos := h ! ?c, ?c := x]) = mset (h[pos := x])"
      using "1.prems"(2) c by (intro mset_swap_update) auto
    ultimately show ?thesis
      by simp
  next
    case False
    then have "siftup_loop h pos = (h, pos)"
      by (subst siftup_loop.simps) (simp add: Let_def)
    then show ?thesis
      using "1.prems" by simp
  qed
qed

lemma siftup_props:
  assumes "p < length h"
  shows "length (siftup h p) = length h \<and> mset (siftup h p) = mset h"
proof -
  obtain h' p' where r: "siftup_loop h p = (h', p')"
    by (cases "siftup_loop h p") auto
  from siftup_loop_props [OF r assms, of "h ! p"]
  have l: "length h' = length h" and p': "p' < length h"
    and m: "mset (h'[p' := h ! p]) = mset h"
    by simp_all
  have "siftup h p = siftdown (h'[p' := h ! p]) p p'"
    by (simp add: siftup_def r)
  then show ?thesis
    using l p' m by (simp add: mset_siftdown)
qed

lemma heappush_props:
  "length (heappush h item) = Suc (length h) \<and> mset (heappush h item) = add_mset item (mset h)"
  by (simp add: heappush_def Let_def mset_siftdown)

lemma heappushpop_props:
  "length (fst (heappushpop h item)) = length h
   \<and> set (fst (heappushpop h item)) \<subseteq> Set.insert item (set h)"
proof (cases "h \<noteq> [] \<and> h ! 0 < item")
  case True
  then have l: "0 < length (h[0 := item])"
    by simp
  have "mset (siftup (h[0 := item]) 0) = mset (h[0 := item])"
    using siftup_props [OF l] by simp
  then have "set (siftup (h[0 := item]) 0) = set (h[0 := item])"
    by (rule mset_eq_setD)
  moreover have "set (h[0 := item]) \<subseteq> Set.insert item (set h)"
    by (rule set_update_subset_insert)
  ultimately show ?thesis
    using True siftup_props [OF l] by (simp add: heappushpop_def)
next
  case False
  then show ?thesis
    by (auto simp: heappushpop_def)
qed

subsection \<open>The traversal of \<^verbatim>\<open>complete\<close>\<close>

lemma visit_length:
  "length h \<le> nat k \<Longrightarrow>
     length (if int (length h) < k then heappush h pair else fst (heappushpop h pair)) \<le> nat k"
  using heappush_props [of h pair] heappushpop_props [of h pair] by auto

lemma dfs_length: "length h \<le> nat k \<Longrightarrow> length (dfs k n w h) \<le> nat k"
proof (induction k n w h rule: dfs.induct)
  case (1 k n word h)
  let ?h0 = "if end_flag n then
          (let pair = (score n, word)
           in if int (length h) < k then heappush h pair else fst (heappushpop h pair))
        else h"
  have h0: "length ?h0 \<le> nat k"
    using "1.prems" visit_length [of h k "(score n, word)"] by (simp add: Let_def)
  have "length (fold (\<lambda>c h'. case map_of (nxt n) c of
                     Some child \<Rightarrow> dfs k child (word @ [c]) h'
                   | None \<Rightarrow> h') (sort (map fst (nxt n))) ?h0) \<le> nat k"
  proof (rule fold_invariant [where Q = "\<lambda>c. c \<in> set (sort (map fst (nxt n)))"
        and P = "\<lambda>h'. length h' \<le> nat k"])
    show "length ?h0 \<le> nat k"
      by (rule h0)
  next
    fix c and h' :: heap
    assume "c \<in> set (sort (map fst (nxt n)))" "length h' \<le> nat k"
    then show "length (case map_of (nxt n) c of
                     Some child \<Rightarrow> dfs k child (word @ [c]) h'
                   | None \<Rightarrow> h') \<le> nat k"
      using "1.IH" by (auto split: option.splits)
  qed simp
  then show ?case
    by (subst dfs.simps)
qed

lemma entries_child:
  "map_of (nxt n) c = Some child \<Longrightarrow> set (entries child (w @ [c])) \<subseteq> set (entries n w)"
proof -
  assume a: "map_of (nxt n) c = Some child"
  then have "c \<in> set (sort (map fst (nxt n)))"
    using map_of_keys [OF a] by simp
  then show ?thesis
    using a by (subst (2) entries.simps) force
qed

lemma entries_self: "end_flag n \<Longrightarrow> (score n, w) \<in> set (entries n w)"
  by (subst entries.simps) simp

lemma visit_subset:
  "set (if end_flag n then
          (let pair = (score n, word)
           in if int (length h) < k then heappush h pair else fst (heappushpop h pair))
        else h) \<subseteq> set h \<union> set (entries n word)"
proof (cases "end_flag n")
  case True
  have "set (heappush h (score n, word)) = Set.insert (score n, word) (set h)"
    using heappush_props [of h "(score n, word)"] by (metis mset_eq_setD set_mset_add_mset_insert set_mset_mset)
  then show ?thesis
    using True heappushpop_props [of h "(score n, word)"] entries_self [OF True, of word]
    by (auto simp: Let_def)
next
  case False
  then show ?thesis by simp
qed

lemma dfs_subset: "set (dfs k n w h) \<subseteq> set h \<union> set (entries n w)"
proof (induction k n w h rule: dfs.induct)
  case (1 k n word h)
  let ?h0 = "if end_flag n then
          (let pair = (score n, word)
           in if int (length h) < k then heappush h pair else fst (heappushpop h pair))
        else h"
  have "set (fold (\<lambda>c h'. case map_of (nxt n) c of
                     Some child \<Rightarrow> dfs k child (word @ [c]) h'
                   | None \<Rightarrow> h') (sort (map fst (nxt n))) ?h0) \<subseteq> set h \<union> set (entries n word)"
  proof (rule fold_invariant [where Q = "\<lambda>c. c \<in> set (sort (map fst (nxt n)))"
        and P = "\<lambda>h'. set h' \<subseteq> set h \<union> set (entries n word)"])
    show "set ?h0 \<subseteq> set h \<union> set (entries n word)"
      by (rule visit_subset)
  next
    fix c and h' :: heap
    assume c: "c \<in> set (sort (map fst (nxt n)))" and h': "set h' \<subseteq> set h \<union> set (entries n word)"
    show "set (case map_of (nxt n) c of
                     Some child \<Rightarrow> dfs k child (word @ [c]) h'
                   | None \<Rightarrow> h') \<subseteq> set h \<union> set (entries n word)"
    proof (cases "map_of (nxt n) c")
      case None
      then show ?thesis using h' by simp
    next
      case (Some child)
      have "set (dfs k child (word @ [c]) h') \<subseteq> set h' \<union> set (entries child (word @ [c]))"
        using c Some by (rule "1.IH")
      then show ?thesis
        using Some h' entries_child [OF Some, of word] by auto
    qed
  qed simp
  then show ?case
    by (subst dfs.simps)
qed

lemma fold_children_all:
  assumes step: "\<And>c h'. c \<in> set cs \<Longrightarrow> length h' + length (g c) \<le> m \<Longrightarrow>
                   mset (f c h') = mset h' + mset (g c)"
  shows "length h + length (concat (map g cs)) \<le> m \<Longrightarrow>
           mset (fold f cs h) = mset h + mset (concat (map g cs))"
  using step
proof (induction cs arbitrary: h)
  case Nil
  then show ?case by simp
next
  case (Cons c cs)
  have one: "mset (f c h) = mset h + mset (g c)"
    using Cons.prems by (intro Cons.prems(2)) auto
  then have "size (mset (f c h)) = size (mset h + mset (g c))"
    by simp
  then have len: "length (f c h) = length h + length (g c)"
    by simp
  have "mset (fold f cs (f c h)) = mset (f c h) + mset (concat (map g cs))"
    using Cons.prems len by (intro Cons.IH) auto
  then show ?case
    using one by simp
qed

lemma dfs_all:
  "length h + length (entries n w) \<le> nat k \<Longrightarrow> mset (dfs k n w h) = mset h + mset (entries n w)"
proof (induction k n w h rule: dfs.induct)
  case (1 k n word h)
  let ?g = "\<lambda>c. case map_of (nxt n) c of
                          Some child \<Rightarrow> entries child (word @ [c])
                        | None \<Rightarrow> []"
  let ?f = "\<lambda>c h'. case map_of (nxt n) c of
                     Some child \<Rightarrow> dfs k child (word @ [c]) h'
                   | None \<Rightarrow> h'"
  let ?own = "if end_flag n then [(score n, word)] else []"
  let ?h0 = "if end_flag n then
          (let pair = (score n, word)
           in if int (length h) < k then heappush h pair else fst (heappushpop h pair))
        else h"
  have ent: "entries n word = ?own @ concat (map ?g (sort (map fst (nxt n))))"
    by (subst entries.simps) simp
  have bound: "length h + length ?own + length (concat (map ?g (sort (map fst (nxt n))))) \<le> nat k"
    using "1.prems" unfolding ent by simp
  have h0: "mset ?h0 = mset h + mset ?own"
  proof (cases "end_flag n")
    case True
    then have "int (length h) < k"
      using bound by simp
    then show ?thesis
      using True heappush_props [of h "(score n, word)"] by (simp add: Let_def)
  next
    case False
    then show ?thesis by simp
  qed
  then have "size (mset ?h0) = size (mset h + mset ?own)"
    by (rule arg_cong)
  then have l0: "length ?h0 = length h + length ?own"
    by simp
  have "mset (fold ?f (sort (map fst (nxt n))) ?h0)
          = mset ?h0 + mset (concat (map ?g (sort (map fst (nxt n)))))"
  proof (rule fold_children_all [where m = "nat k"])
    fix c and h' :: heap
    assume c: "c \<in> set (sort (map fst (nxt n)))" and b: "length h' + length (?g c) \<le> nat k"
    show "mset (?f c h') = mset h' + mset (?g c)"
    proof (cases "map_of (nxt n) c")
      case None
      then show ?thesis by simp
    next
      case (Some child)
      have "mset (dfs k child (word @ [c]) h') = mset h' + mset (entries child (word @ [c]))"
        using c Some b by (intro "1.IH") simp_all
      then show ?thesis
        using Some by simp
    qed
  next
    show "length ?h0 + length (concat (map ?g (sort (map fst (nxt n))))) \<le> nat k"
      using bound l0 by simp
  qed
  then have "mset (dfs k n word h) = mset ?h0 + mset (concat (map ?g (sort (map fst (nxt n)))))"
    by (subst dfs.simps)
  then show ?case
    unfolding ent h0 by simp
qed

lemma find_node_append:
  "find_node n (a @ b) = (case find_node n a of None \<Rightarrow> None | Some m \<Rightarrow> find_node m b)"
  by (induction a arbitrary: n) (auto split: option.splits)

lemma entries_iff:
  "(s, v) \<in> set (entries n w) \<longleftrightarrow>
     (\<exists>u m. v = w @ u \<and> find_node n u = Some m \<and> end_flag m \<and> s = score m)"
proof (induction n w arbitrary: s v rule: entries.induct)
  case (1 n word)
  have ent: "set (entries n word) =
      (if end_flag n then {(score n, word)} else {}) \<union>
      (\<Union>c \<in> set (sort (map fst (nxt n))).
          set (case map_of (nxt n) c of Some child \<Rightarrow> entries child (word @ [c]) | None \<Rightarrow> []))"
    by (subst entries.simps) auto
  show ?case
  proof
    assume "(s, v) \<in> set (entries n word)"
    then have "(end_flag n \<and> (s, v) = (score n, word))
        \<or> (\<exists>c \<in> set (sort (map fst (nxt n))).
              (s, v) \<in> set (case map_of (nxt n) c of
                               Some child \<Rightarrow> entries child (word @ [c]) | None \<Rightarrow> []))"
      unfolding ent by (auto split: if_splits)
    then consider "end_flag n" "(s, v) = (score n, word)"
      | c child where "c \<in> set (sort (map fst (nxt n)))" "map_of (nxt n) c = Some child"
          "(s, v) \<in> set (entries child (word @ [c]))"
    proof (elim disjE conjE bexE)
      fix c
      assume a: "c \<in> set (sort (map fst (nxt n)))"
        "(s, v) \<in> set (case map_of (nxt n) c of
                               Some child \<Rightarrow> entries child (word @ [c]) | None \<Rightarrow> [])"
        and k: "\<And>c child. c \<in> set (sort (map fst (nxt n))) \<Longrightarrow> map_of (nxt n) c = Some child \<Longrightarrow>
                  (s, v) \<in> set (entries child (word @ [c])) \<Longrightarrow> thesis"
      then obtain child where "map_of (nxt n) c = Some child"
        by (cases "map_of (nxt n) c") auto
      then show thesis
        using a k by simp
    qed
    then show "\<exists>u m. v = word @ u \<and> find_node n u = Some m \<and> end_flag m \<and> s = score m"
    proof cases
      case 1
      then have "v = word @ [] \<and> find_node n [] = Some n \<and> end_flag n \<and> s = score n"
        by simp
      then show ?thesis by blast
    next
      case 2
      from "1.IH" [OF 2(1,2)] 2(3) obtain u m where
        "v = (word @ [c]) @ u" "find_node child u = Some m" "end_flag m" "s = score m"
        by blast
      then have "v = word @ (c # u) \<and> find_node n (c # u) = Some m \<and> end_flag m \<and> s = score m"
        using 2(2) by simp
      then show ?thesis by blast
    qed
  next
    assume "\<exists>u m. v = word @ u \<and> find_node n u = Some m \<and> end_flag m \<and> s = score m"
    then obtain u m where u: "v = word @ u" "find_node n u = Some m" "end_flag m" "s = score m"
      by blast
    show "(s, v) \<in> set (entries n word)"
    proof (cases u)
      case Nil
      then show ?thesis
        using u unfolding ent by simp
    next
      case (Cons c u')
      then obtain child where child: "map_of (nxt n) c = Some child" "find_node child u' = Some m"
        using u(2) by (auto split: option.splits)
      have c: "c \<in> set (sort (map fst (nxt n)))"
        using map_of_keys [OF child(1)] by simp
      have "(s, v) \<in> set (entries child (word @ [c]))"
        using "1.IH" [OF c child(1)] u child(2) Cons by auto
      then show ?thesis
        unfolding ent using c child(1) by force
    qed
  qed
qed

lemma dict_ok_find: "dict_ok n \<Longrightarrow> find_node n u = Some m \<Longrightarrow> dict_ok m"
proof (induction u arbitrary: n)
  case Nil
  then show ?case by simp
next
  case (Cons c u)
  from Cons.prems(2) obtain x where x: "map_of (nxt n) c = Some x" "find_node x u = Some m"
    by (auto split: option.splits)
  have "dict_ok x"
    using map_of_list_all [OF x(1)] Cons.prems(1) by (auto simp: dict_ok_iff [of n])
  then show ?case
    using Cons.IH x(2) by blast
qed

lemma distinct_concat_words:
  assumes "distinct cs"
    and "\<And>c. c \<in> set cs \<Longrightarrow> distinct (map snd (g c))"
    and "\<And>c c'. c \<in> set cs \<Longrightarrow> c' \<in> set cs \<Longrightarrow> c \<noteq> c' \<Longrightarrow>
           snd ` set (g c) \<inter> snd ` set (g c') = {}"
  shows "distinct (map snd (concat (map g cs)))"
  using assms
proof (induction cs)
  case Nil
  then show ?case by simp
next
  case (Cons c cs)
  have "distinct (map snd (concat (map g cs)))"
    using Cons.prems by (intro Cons.IH) auto
  moreover have "distinct (map snd (g c))"
    using Cons.prems(2) by simp
  moreover have "snd ` set (g c) \<inter> snd ` set (concat (map g cs)) = {}"
  proof -
    have "snd ` set (g c) \<inter> snd ` set (g c') = {}" if "c' \<in> set cs" for c'
      using Cons.prems(1) Cons.prems(3) [of c c'] that by auto
    then show ?thesis
      by auto
  qed
  ultimately show ?case
    by simp
qed

lemma entries_words: "(s, v) \<in> set (entries n w) \<Longrightarrow> \<exists>u. v = w @ u"
  by (auto simp: entries_iff)

lemma entries_distinct: "dict_ok n \<Longrightarrow> distinct (map snd (entries n w))"
proof (induction n w rule: entries.induct)
  case (1 n word)
  let ?g = "\<lambda>c. case map_of (nxt n) c of
                          Some child \<Rightarrow> entries child (word @ [c])
                        | None \<Rightarrow> []"
  let ?cs = "sort (map fst (nxt n))"
  have ent: "entries n word = (if end_flag n then [(score n, word)] else []) @ concat (map ?g ?cs)"
    by (subst entries.simps) simp
  have dk: "distinct ?cs"
    using "1.prems" by (simp add: dict_ok_iff [of n])
  have form: "\<exists>u. v = word @ c # u" if "c \<in> set ?cs" "(s, v) \<in> set (?g c)" for c s v
  proof (cases "map_of (nxt n) c")
    case None
    then show ?thesis using that by simp
  next
    case (Some child)
    then show ?thesis
      using that entries_words [of s v child "word @ [c]"] by auto
  qed
  have each: "distinct (map snd (?g c))" if "c \<in> set ?cs" for c
  proof (cases "map_of (nxt n) c")
    case None
    then show ?thesis by simp
  next
    case (Some child)
    have "dict_ok child"
      using map_of_list_all [OF Some] "1.prems" by (auto simp: dict_ok_iff [of n])
    then show ?thesis
      using "1.IH" [OF that Some] Some by simp
  qed
  have apart: "snd ` set (?g c) \<inter> snd ` set (?g c') = {}"
    if cc: "c \<in> set ?cs" "c' \<in> set ?cs" "c \<noteq> c'" for c c'
  proof (rule ccontr)
    assume "snd ` set (?g c) \<inter> snd ` set (?g c') \<noteq> {}"
    then obtain v s s' where "(s, v) \<in> set (?g c)" "(s', v) \<in> set (?g c')"
      by fastforce
    then obtain u u' where "v = word @ c # u" "v = word @ c' # u'"
      using form cc(1,2) by blast
    then show False
      using cc(3) by simp
  qed
  have rest: "distinct (map snd (concat (map ?g ?cs)))"
    using dk each apart by (rule distinct_concat_words)
  have "word \<notin> snd ` set (concat (map ?g ?cs))"
  proof
    assume "word \<in> snd ` set (concat (map ?g ?cs))"
    then obtain s where "(s, word) \<in> set (concat (map ?g ?cs))"
      by force
    then obtain c where "c \<in> set ?cs" "(s, word) \<in> set (?g c)"
      unfolding set_concat set_map by blast
    then obtain u where "word = word @ c # u"
      using form by blast
    then show False by simp
  qed
  then show ?case
    unfolding ent using rest by simp
qed

lemma results_find:
  "results t p k =
     (case find_node (root_node t) p of
        None \<Rightarrow> []
      | Some n \<Rightarrow> sort_key (\<lambda>x. (- fst x, snd x)) (dfs k n p []))"
  using trace_find [of t p] by (auto simp: results_def split: option.splits)

lemma score_of_find:
  "score_of t w =
     (case find_node (root_node t) w of
        None \<Rightarrow> None
      | Some n \<Rightarrow> if end_flag n then Some (score n) else None)"
proof (cases "trace t w")
  case None
  then have "find_node (root_node t) w = None"
    using trace_find [of t w] by simp
  then show ?thesis
    using None by (simp add: score_of_def)
next
  case (Some a)
  obtain n q where a: "a = (n, q)"
    by (cases a)
  then have "find_node (root_node t) w = Some n"
    using trace_find [of t w] Some by simp
  then show ?thesis
    using Some a by (simp add: score_of_def)
qed

lemma results_length: "length (results t p k) \<le> nat k"
proof (cases "find_node (root_node t) p")
  case None
  then show ?thesis by (simp add: results_find)
next
  case (Some n)
  have "length (dfs k n p []) \<le> nat k"
    by (rule dfs_length) simp
  then show ?thesis
    using Some by (simp add: results_find)
qed

lemma results_subset:
  "find_node (root_node t) p = Some n \<Longrightarrow> set (results t p k) \<subseteq> set (entries n p)"
  using dfs_subset [of k n p "[]"] by (simp add: results_find)

lemma results_stored:
  assumes "(s, w) \<in> set (results t p k)"
  shows "score_of t w = Some s \<and> (\<exists>u. w = p @ u)"
proof (cases "find_node (root_node t) p")
  case None
  then show ?thesis
    using assms by (simp add: results_find)
next
  case (Some n)
  then have "(s, w) \<in> set (entries n p)"
    using assms results_subset by blast
  then obtain u m where u: "w = p @ u" "find_node n u = Some m" "end_flag m" "s = score m"
    by (auto simp: entries_iff)
  then have "find_node (root_node t) w = Some m"
    using Some by (simp add: find_node_append)
  then show ?thesis
    using u by (simp add: score_of_find)
qed

lemma results_sorted:
  "sorted_wrt (\<lambda>(s1, w1) (s2, w2). s1 > s2 \<or> (s1 = s2 \<and> w1 \<le> w2)) (results t p k)"
proof -
  let ?key = "\<lambda>x :: real \<times> string. (- fst x, snd x)"
  have "sorted (map ?key (sort_key ?key xs))" for xs
    by (rule sorted_sort_key)
  then have "sorted_wrt (\<lambda>x y. ?key x \<le> ?key y) (sort_key ?key xs)" for xs
    by (simp add: sorted_map)
  moreover have "(\<lambda>x y. ?key x \<le> ?key y)
      = (\<lambda>(s1, w1) (s2, w2). s1 > s2 \<or> (s1 = s2 \<and> w1 \<le> w2))"
    by (auto simp: fun_eq_iff less_eq_prod_def)
  ultimately have "sorted_wrt (\<lambda>(s1, w1) (s2, w2). s1 > s2 \<or> (s1 = s2 \<and> w1 \<le> w2))
      (sort_key ?key xs)" for xs
    by simp
  then show ?thesis
    by (cases "find_node (root_node t) p") (simp_all add: results_find)
qed

lemma stored_prefix:
  "{w. contains t w \<and> (\<exists>u. w = p @ u)} =
     (case find_node (root_node t) p of None \<Rightarrow> {} | Some n \<Rightarrow> snd ` set (entries n p))"
proof (cases "find_node (root_node t) p")
  case None
  then have "\<not> contains t (p @ u)" for u
    by (simp add: contains_find find_node_append)
  then show ?thesis
    using None by auto
next
  case (Some n)
  have A: "contains t (p @ u) \<longleftrightarrow> has n u" for u
    using Some by (simp add: contains_find find_node_append has_def)
  have B: "w \<in> snd ` set (entries n p) \<longleftrightarrow> (\<exists>u. w = p @ u \<and> has n u)" for w
  proof
    assume "w \<in> snd ` set (entries n p)"
    then obtain s where "(s, w) \<in> set (entries n p)"
      by force
    then show "\<exists>u. w = p @ u \<and> has n u"
      by (auto simp: entries_iff has_def)
  next
    assume "\<exists>u. w = p @ u \<and> has n u"
    then obtain u m where "w = p @ u" "find_node n u = Some m" "end_flag m"
      by (auto simp: has_def split: option.splits)
    then have "(score m, w) \<in> set (entries n p)"
      by (auto simp: entries_iff)
    then show "w \<in> snd ` set (entries n p)"
      by force
  qed
  have C: "contains t w \<and> (\<exists>u. w = p @ u) \<longleftrightarrow> (\<exists>u. w = p @ u \<and> has n u)" for w
    using A by auto
  have "{w. contains t w \<and> (\<exists>u. w = p @ u)} = snd ` set (entries n p)"
    by (rule set_eqI) (simp only: mem_Collect_eq B C)
  then show ?thesis
    using Some by simp
qed

lemma complete_all:
  assumes ok: "dict_ok (root_node t)" and few: "int (card {w. contains t w \<and> (\<exists>u. w = p @ u)}) \<le> k"
  shows "set (complete_prefix t p k) = {w. contains t w \<and> (\<exists>u. w = p @ u)} \<and> distinct (complete_prefix t p k)"
proof (cases "find_node (root_node t) p")
  case None
  then show ?thesis
    by (simp add: stored_prefix complete_prefix_def results_find)
next
  case (Some n)
  let ?key = "\<lambda>x :: real \<times> string. (- fst x, snd x)"
  have okn: "dict_ok n"
    using ok Some by (rule dict_ok_find)
  then have d: "distinct (map snd (entries n p))"
    by (rule entries_distinct)
  have st: "{w. contains t w \<and> (\<exists>u. w = p @ u)} = set (map snd (entries n p))"
    using Some by (simp add: stored_prefix)
  have "card (set (map snd (entries n p))) = length (entries n p)"
    using distinct_card [OF d] by simp
  then have "length [] + length (entries n p) \<le> nat k"
    using few st by simp
  then have "mset (dfs k n p []) = mset [] + mset (entries n p)"
    by (rule dfs_all)
  then have m: "mset (map snd (sort_key ?key (dfs k n p []))) = mset (map snd (entries n p))"
    by simp
  have c: "complete_prefix t p k = map snd (sort_key ?key (dfs k n p []))"
    using Some by (simp add: complete_prefix_def results_find)
  have "set (complete_prefix t p k) = set (map snd (entries n p))"
    unfolding c using m by (rule mset_eq_setD)
  moreover have "distinct (complete_prefix t p k)"
    unfolding c using mset_eq_imp_distinct_iff [OF m] d by blast
  ultimately show ?thesis
    using st by simp
qed

lemma complete_zero: "complete_prefix t p 0 = []"
  using results_length [of t p 0] by (simp add: complete_prefix_def)

lemma complete_no_path: "trace t p = None \<Longrightarrow> complete_prefix t p k = []"
  by (simp add: complete_prefix_def results_def)

subsection \<open>Scores and shape\<close>

lemma entry_Nil [simp]: "entry n [] = (if end_flag n then Some (score n) else None)"
  by (simp add: entry_def)

lemma entry_Cons:
  "entry n (c # cs) = (case map_of (nxt n) c of None \<Rightarrow> None | Some x \<Rightarrow> entry x cs)"
  by (simp add: entry_def split: option.splits)

lemma entry_new_node [simp]: "entry new_node w = None"
  by (cases w) (simp_all add: entry_Cons)

lemma score_of_entry: "score_of t w = entry (root_node t) w"
  by (simp add: score_of_find entry_def)

lemma shape_eq: "shape n = Node (map (\<lambda>(c, x). (c, shape x)) (nxt n)) (end_flag n) 0"
  by (cases n) simp

lemma map_update_same:
  "map_of d c = Some x \<Longrightarrow> g (c, v) = g (c, x) \<Longrightarrow> map g (AList.update c v d) = map g d"
  by (induction d) (auto split: if_splits)

lemma entry_insert_loop:
  "insert_loop n w f cw cn = (n', cw', cn') \<Longrightarrow> entry n' v = (if v = w then Some f else entry n v)"
proof (induction w arbitrary: n n' cw cn cw' cn' v)
  case Nil
  then show ?case
    by (cases v) (auto simp: entry_Cons)
next
  case (Cons c cs)
  show ?case
  proof (cases v)
    case Nil
    then show ?thesis
      using Cons.prems by (auto split: option.splits prod.splits)
  next
    case (Cons c' v')
    show ?thesis
    proof (cases "map_of (nxt n) c")
      case None
      obtain x' a b where r: "insert_loop new_node cs f cw (cn + 1) = (x', a, b)"
        by (cases "insert_loop new_node cs f cw (cn + 1)") auto
      have n': "n' = Node (AList.update c x' (nxt n)) (end_flag n) (score n)"
        using Cons.prems None r by simp
      from Cons.IH [OF r] have "entry x' v' = (if v' = cs then Some f else None)"
        by simp
      then show ?thesis
        using None by (auto simp: Cons n' entry_Cons update_conv')
    next
      case (Some x)
      obtain x' a b where r: "insert_loop x cs f cw cn = (x', a, b)"
        by (cases "insert_loop x cs f cw cn") auto
      have n': "n' = Node (AList.update c x' (nxt n)) (end_flag n) (score n)"
        using Cons.prems Some r by simp
      from Cons.IH [OF r] have "entry x' v' = (if v' = cs then Some f else entry x v')"
        by simp
      then show ?thesis
        using Some by (auto simp: Cons n' entry_Cons update_conv')
    qed
  qed
qed

lemma insert_loop_existing:
  "has n w \<Longrightarrow> insert_loop n w f cw cn = (n', cw', cn') \<Longrightarrow>
     cw' = cw \<and> cn' = cn \<and> shape n' = shape n"
proof (induction w arbitrary: n n' cw cn cw' cn')
  case Nil
  then show ?case
    by (auto simp: shape_eq [of n])
next
  case (Cons c cs)
  from Cons.prems(1) obtain x where x: "map_of (nxt n) c = Some x" "has x cs"
    by (auto simp: has_Cons split: option.splits)
  obtain x' a b where r: "insert_loop x cs f cw cn = (x', a, b)"
    by (cases "insert_loop x cs f cw cn") auto
  from Cons.IH [OF x(2) r] have ih: "a = cw" "b = cn" "shape x' = shape x"
    by simp_all
  have n': "n' = Node (AList.update c x' (nxt n)) (end_flag n) (score n)" "cw' = a" "cn' = b"
    using Cons.prems(2) x(1) r by simp_all
  have "map (\<lambda>(c, x). (c, shape x)) (AList.update c x' (nxt n)) = map (\<lambda>(c, x). (c, shape x)) (nxt n)"
    using x(1) by (rule map_update_same) (simp add: ih(3))
  then show ?case
    using ih n' by (simp add: shape_eq [of n])
qed

subsection \<open>The empty word\<close>




subsection \<open>The heap property\<close>








lemma is_heap_Nil [simp]: "is_heap []"
  by (simp add: is_heap_def)


subsection \<open>The best candidates stay in the heap\<close>














section \<open>Properties\<close>

subsection \<open>Completion on equal scores\<close>

text \<open>
  C1. After \<^verbatim>\<open>insert("ant", 5.0)\<close>, \<^verbatim>\<open>insert("ape", 5.0)\<close>, \<^verbatim>\<open>insert("art", 5.0)\<close> on an empty
  trie, the specification wants \<^verbatim>\<open>complete("a", 2)\<close> to be \<^verbatim>\<open>["ant", "ape"]\<close>. The code returns
  \<^verbatim>\<open>["ape", "art"]\<close>: when the heap is full, \<^verbatim>\<open>heappushpop\<close> compares \<^verbatim>\<open>(5.0, "ant") < (5.0, "art")\<close>
  and drops the alphabetically smaller word.
\<close>

theorem complete_equal_scores_keeps_larger_words:
  "complete_prefix (insert_word (insert_word (insert_word new_trie ''ant'' 5) ''ape'' 5) ''art'' 5) ''a'' 2
     = [''ape'', ''art'']"
  by code_simp

subsection \<open>Failed removal\<close>

text \<open>
  C5. When the word is not stored (its path is missing, or the node at its end is not
  terminal), \<^verbatim>\<open>remove\<close> returns false and the trie after the call is the trie before it:
  the same counters and the same tree, with every child, flag and score.
\<close>

theorem remove_absent_unchanged:
  "\<not> contains t word \<Longrightarrow> remove t word = (False, t)"
  by (auto simp: contains_def remove_def split: option.splits)

theorem remove_absent_unchanged_witness:
  "\<not> contains (insert_word new_trie ''cat'' 1) ''ca''
   \<and> remove (insert_word new_trie ''cat'' 1) ''ca'' = (False, insert_word new_trie ''cat'' 1)"
proof -
  have absent: "\<not> contains (insert_word new_trie ''cat'' 1) ''ca''"
    by (simp add: contains_def trace_def insert_word_def new_trie_def new_node_def)
  from absent remove_absent_unchanged [OF absent] show ?thesis
    by blast
qed

subsection \<open>\<^verbatim>\<open>stats\<close>\<close>

lemma fold_max_Max: "fold max ds (d::int) = Max (set (d # ds))"
  by (rule Max.set_eq_fold [symmetric])

lemma depth_height_spec: "depth n = height_spec n"
proof (induction n rule: depth.induct)
  case (1 n)
  have eq: "map depth (map snd (nxt n)) = map height_spec (map snd (nxt n))"
    using 1 by simp
  show ?case
  proof (cases "nxt n")
    case Nil
    then show ?thesis
      by (simp add: depth.simps [of n] height_spec.simps [of n])
  next
    case (Cons p ps)
    then obtain d ds where ds: "map height_spec (map snd (nxt n)) = d # ds"
      by (cases "map height_spec (map snd (nxt n))") auto
    have "depth n = (case map height_spec (map snd (nxt n)) of [] \<Rightarrow> 0 | d # ds \<Rightarrow> 1 + fold max ds d)"
      by (subst depth.simps) (simp only: eq)
    also have "\<dots> = 1 + Max (set (map height_spec (map snd (nxt n))))"
      unfolding ds by (simp only: list.case fold_max_Max)
    also have "\<dots> = height_spec n"
      using Cons by (subst height_spec.simps [of n]) simp
    finally show ?thesis .
  qed
qed

text \<open>
  C7. \<^verbatim>\<open>stats()\<close> of the empty trie is \<open>(0, 0, 1)\<close>; the height it returns is the height of the
  root by the recursive definition of the specification; after \<^verbatim>\<open>insert("a", s1)\<close> and
  \<^verbatim>\<open>insert("ab", s2)\<close> on an empty trie it returns 2 words, height 2 and 3 nodes.
\<close>

theorem stats_correct:
  "stats new_trie = (0, 0, 1)
   \<and> stats t = (count_words t, height_spec (root_node t), count_nodes t)
   \<and> stats (insert_word (insert_word new_trie ''a'' s1) ''ab'' s2) = (2, 2, 3)"
proof -
  have "stats new_trie = (0, 0, 1)"
    by (simp add: stats_def new_trie_def new_node_def depth.simps)
  moreover have "stats t = (count_words t, height_spec (root_node t), count_nodes t)"
    by (simp only: stats_def depth_height_spec)
  moreover have "stats (insert_word (insert_word new_trie ''a'' s1) ''ab'' s2) = (2, 2, 3)"
    by (simp add: stats_def insert_word_def new_trie_def new_node_def depth.simps)
  ultimately show ?thesis
    by (intro conjI)
qed

subsection \<open>Insertion and removal of a set of words\<close>

text \<open>
  C4. Insert words, pairwise different, with any scores into an empty trie, then call
  \<^verbatim>\<open>remove\<close> on each of them, in any order: every call returns true, and the trie is left with
  one node, the root without children, and no word.
\<close>

theorem round_trip:
  "distinct (map fst ws) \<Longrightarrow> mset rs = mset (map fst ws) \<Longrightarrow>
     fst (remove_all (insert_all new_trie ws) rs) = replicate (length ws) True
     \<and> count_nodes (snd (remove_all (insert_all new_trie ws) rs)) = 1
     \<and> count_words (snd (remove_all (insert_all new_trie ws) rs)) = 0
     \<and> nxt (root_node (snd (remove_all (insert_all new_trie ws) rs))) = []"
proof -
  assume d: "distinct (map fst ws)" and m: "mset rs = mset (map fst ws)"
  let ?t = "insert_all new_trie ws"
  have drs: "distinct rs"
    using d mset_eq_imp_distinct_iff [OF m] by simp
  have srs: "set rs = fst ` set ws"
    using mset_eq_setD [OF m] by simp
  have len: "length rs = length ws"
    using mset_eq_length [OF m] by simp
  have inv1: "trie_inv ?t"
    using inv_new by (rule inv_insert_all)
  have "\<And>w. w \<in> set rs \<Longrightarrow> contains ?t w"
    using srs by (simp add: contains_insert_all)
  from remove_all_present [OF inv1 drs this]
  have res: "fst (remove_all ?t rs) = replicate (length rs) True"
    and inv2: "trie_inv (snd (remove_all ?t rs))"
    and c: "\<And>v. contains (snd (remove_all ?t rs)) v = (v \<notin> set rs \<and> contains ?t v)"
    by auto
  have "\<not> contains new_trie v" for v
    by (cases v) (simp_all add: contains_has new_trie_def has_Cons)
  then have "\<And>v. \<not> contains (snd (remove_all ?t rs)) v"
    using c srs by (auto simp: contains_insert_all)
  from inv_empty [OF inv2 this] res len show ?thesis
    by simp
qed

theorem round_trip_witness:
  "distinct (map fst [(''cats'', 1), (''car'', 2), ('''', 3 :: real)])
   \<and> mset [''car'', '''', ''cats''] = mset (map fst [(''cats'', 1), (''car'', 2), ('''', 3 :: real)])
   \<and> fst (remove_all (insert_all new_trie [(''cats'', 1), (''car'', 2), ('''', 3)])
        [''car'', '''', ''cats'']) = [True, True, True]
   \<and> count_nodes (snd (remove_all (insert_all new_trie [(''cats'', 1), (''car'', 2), ('''', 3)])
        [''car'', '''', ''cats''])) = 1
   \<and> count_words (snd (remove_all (insert_all new_trie [(''cats'', 1), (''car'', 2), ('''', 3)])
        [''car'', '''', ''cats''])) = 0"
proof -
  have d: "distinct (map fst [(''cats'', 1), (''car'', 2), ('''', 3 :: real)])"
    by simp
  have m: "mset [''car'', '''', ''cats''] = mset (map fst [(''cats'', 1), (''car'', 2), ('''', 3 :: real)])"
    by simp
  from round_trip [OF d m] d m show ?thesis
    by (simp add: numeral_3_eq_3)
qed

subsection \<open>The counters\<close>

text \<open>
  C8. After any sequence of calls on an empty trie, \<^verbatim>\<open>_count_words\<close> is the number of
  terminal nodes of the tree and \<^verbatim>\<open>_count_nodes\<close> is the number of its nodes, the root
  included.
\<close>

theorem counters_exact:
  "count_words (run ops) = terminal_total (root_node (run ops))
   \<and> count_nodes (run ops) = node_total (root_node (run ops))"
  using inv_run [of ops] by (simp add: trie_inv_def)

theorem counters_exact_witness:
  "count_words (run [Insert ''cats'' 1, Insert ''car'' 2, Remove ''cats'']) = 1
   \<and> terminal_total (root_node (run [Insert ''cats'' 1, Insert ''car'' 2, Remove ''cats''])) = 1
   \<and> count_nodes (run [Insert ''cats'' 1, Insert ''car'' 2, Remove ''cats'']) = 4
   \<and> node_total (root_node (run [Insert ''cats'' 1, Insert ''car'' 2, Remove ''cats''])) = 4"
proof -
  let ?ops = "[Insert ''cats'' 1, Insert ''car'' 2, Remove ''cats'']"
  have r: "run ?ops = \<lparr>root_node = Node [(CHR ''c'', Node [(CHR ''a'', Node [(CHR ''r'', Node [] True 2)] False 0)]
                  False 0)] False 0, count_words = 1, count_nodes = 4\<rparr>"
    by (simp add: run_def remove_def insert_word_def new_trie_def new_node_def trace_def AList.delete_eq)
  have "count_words (run ?ops) = 1" "count_nodes (run ?ops) = 4"
    by (simp_all add: r)
  with counters_exact [of ?ops] show ?thesis
    by simp
qed

subsection \<open>No dead branch\<close>

text \<open>
  C9. After any sequence of calls on an empty trie, no node other than the root is without
  children and not terminal: the tree is \<open>live\<close>, and every node that \<^verbatim>\<open>_trace\<close> reaches along
  a non-empty text has a child or is terminal. After \<^verbatim>\<open>insert("cats", s1)\<close>,
  \<^verbatim>\<open>insert("car", s2)\<close> and \<^verbatim>\<open>remove("cats")\<close> the nodes of \<^verbatim>\<open>t\<close> and \<^verbatim>\<open>s\<close> are gone, those of
  \<^verbatim>\<open>c\<close> and \<^verbatim>\<open>a\<close> remain, \<^verbatim>\<open>"car"\<close> is contained and \<^verbatim>\<open>"cats"\<close> is not.
\<close>

theorem no_dead_branch:
  "live (root_node (run ops))
   \<and> (\<forall>w n p. w \<noteq> [] \<and> trace (run ops) w = Some (n, p) \<longrightarrow> nxt n \<noteq> [] \<or> end_flag n)
   \<and> remove (insert_word (insert_word new_trie ''cats'' s1) ''car'' s2) ''cats'' =
       (True,
        \<lparr>root_node = Node [(CHR ''c'', Node [(CHR ''a'', Node [(CHR ''r'', Node [] True s2)] False 0)]
                  False 0)] False 0,
         count_words = 1, count_nodes = 4\<rparr>)
   \<and> contains (snd (remove (insert_word (insert_word new_trie ''cats'' s1) ''car'' s2) ''cats'')) ''car''
   \<and> \<not> contains (snd (remove (insert_word (insert_word new_trie ''cats'' s1) ''car'' s2) ''cats'')) ''cats''"
proof -
  have l: "live (root_node (run ops))"
    using inv_run [of ops] by (simp add: trie_inv_def)
  have "nxt n \<noteq> [] \<or> end_flag n" if "w \<noteq> []" "trace (run ops) w = Some (n, p)" for w n p
  proof -
    have "find_node (root_node (run ops)) w = Some n"
      using trace_find [of "run ops" w] that(2) by simp
    from live_find [OF l this that(1)] show ?thesis
      by (auto simp: dead_iff)
  qed
  moreover have ex: "remove (insert_word (insert_word new_trie ''cats'' s1) ''car'' s2) ''cats'' =
       (True,
        \<lparr>root_node = Node [(CHR ''c'', Node [(CHR ''a'', Node [(CHR ''r'', Node [] True s2)] False 0)]
                  False 0)] False 0,
         count_words = 1, count_nodes = 4\<rparr>)"
    by (simp add: remove_def insert_word_def new_trie_def new_node_def trace_def AList.delete_eq)
  moreover have "contains (snd (remove (insert_word (insert_word new_trie ''cats'' s1) ''car'' s2) ''cats'')) ''car''"
    unfolding ex by (simp add: contains_def trace_def)
  moreover have "\<not> contains (snd (remove (insert_word (insert_word new_trie ''cats'' s1) ''car'' s2) ''cats'')) ''cats''"
    unfolding ex by (simp add: contains_def trace_def)
  ultimately show ?thesis
    using l by blast
qed

theorem no_dead_branch_witness:
  "''ca'' \<noteq> []
   \<and> trace (run [Insert ''cats'' 1, Insert ''car'' 2, Remove ''cats'']) ''ca'' =
       Some (Node [(CHR ''r'', Node [] True 2)] False 0,
         [(Node [(CHR ''c'', Node [(CHR ''a'', Node [(CHR ''r'', Node [] True 2)] False 0)] False 0)]
             False 0, ''''),
          (Node [(CHR ''a'', Node [(CHR ''r'', Node [] True 2)] False 0)] False 0, ''c''),
          (Node [(CHR ''r'', Node [] True 2)] False 0, ''a'')])
   \<and> \<not> dead (Node [(CHR ''r'', Node [] True 2)] False 0)"
proof -
  let ?ops = "[Insert ''cats'' 1, Insert ''car'' 2, Remove ''cats'']"
  let ?n = "Node [(CHR ''r'', Node [] True 2)] False 0"
  let ?p = "[(Node [(CHR ''c'', Node [(CHR ''a'', Node [(CHR ''r'', Node [] True 2)] False 0)] False 0)]
             False 0, ''''),
          (Node [(CHR ''a'', Node [(CHR ''r'', Node [] True 2)] False 0)] False 0, ''c''),
          (Node [(CHR ''r'', Node [] True 2)] False 0, ''a'')]"
  have ne: "''ca'' \<noteq> []"
    by simp
  have tr: "trace (run ?ops) ''ca'' = Some (?n, ?p)"
    by (simp add: run_def remove_def insert_word_def new_trie_def new_node_def trace_def AList.delete_eq)
  have "nxt ?n \<noteq> [] \<or> end_flag ?n"
    by (rule no_dead_branch [of ?ops, THEN conjunct2, THEN conjunct1, rule_format, of "''ca''" ?n ?p])
      (intro conjI ne tr)
  then have "\<not> dead ?n"
    by simp
  with ne tr show ?thesis
    by (intro conjI)
qed

subsection \<open>The order of the completions\<close>

text \<open>
  C2. For every trie, prefix and \<open>k\<close>, \<^verbatim>\<open>complete\<close> returns the words of \<^verbatim>\<open>results\<close>, which is
  sorted by score descending and, on equal scores, by word ascending; every pair of
  \<^verbatim>\<open>results\<close> is a stored word with its stored score. After \<^verbatim>\<open>insert("cat", 3.0)\<close>,
  \<^verbatim>\<open>insert("car", 9.0)\<close>, \<^verbatim>\<open>insert("can", 1.0)\<close> on an empty trie, \<^verbatim>\<open>complete("ca", 2)\<close> is
  \<^verbatim>\<open>["car", "cat"]\<close>.
\<close>

theorem complete_sorted:
  "complete_prefix t p k = map snd (results t p k)
   \<and> sorted_wrt (\<lambda>(s1, w1) (s2, w2). s1 > s2 \<or> (s1 = s2 \<and> w1 \<le> w2)) (results t p k)
   \<and> (\<forall>(s, w) \<in> set (results t p k). score_of t w = Some s)
   \<and> complete_prefix (insert_word (insert_word (insert_word new_trie ''cat'' 3) ''car'' 9) ''can'' 1) ''ca'' 2
       = [''car'', ''cat'']"
proof -
  have "complete_prefix (insert_word (insert_word (insert_word new_trie ''cat'' 3) ''car'' 9) ''can'' 1) ''ca'' 2
       = [''car'', ''cat'']"
    by code_simp
  moreover have "\<forall>(s, w) \<in> set (results t p k). score_of t w = Some s"
    using results_stored by blast
  ultimately show ?thesis
    using results_sorted [of t p k] by (simp add: complete_prefix_def)
qed

theorem complete_sorted_witness:
  "(9, ''car'') \<in> set (results (insert_word (insert_word (insert_word new_trie ''cat'' 3) ''car'' 9) ''can'' 1) ''ca'' 2)
   \<and> score_of (insert_word (insert_word (insert_word new_trie ''cat'' 3) ''car'' 9) ''can'' 1) ''car'' = Some 9"
proof -
  let ?t = "insert_word (insert_word (insert_word new_trie ''cat'' 3) ''car'' 9) ''can'' 1"
  have r: "results ?t ''ca'' 2 = [(9, ''car''), (3, ''cat'')]"
    by code_simp
  have "\<forall>(s, w) \<in> set (results ?t ''ca'' 2). score_of ?t w = Some s"
    by (rule complete_sorted [of ?t "''ca''" 2, THEN conjunct2, THEN conjunct2, THEN conjunct1])
  then show ?thesis
    unfolding r by simp
qed

subsection \<open>The number of completions\<close>

text \<open>
  C3. For a non-negative \<open>k\<close>, \<^verbatim>\<open>complete(prefix, k)\<close> returns at most \<open>k\<close> words; when fewer
  than \<open>k\<close> stored words extend the prefix it returns each of them, once; \<^verbatim>\<open>complete(prefix, 0)\<close>
  is empty; and when the path of the prefix does not exist the result is empty. That the keys
  of each dict are pairwise different (\<open>dict_ok\<close>) is what a Python dict guarantees; it
  holds of every trie built through the interface (\<open>inv_run\<close>).
\<close>

theorem complete_bounded:
  "(0 \<le> k \<longrightarrow> int (length (complete_prefix t p k)) \<le> k)
   \<and> (dict_ok (root_node t) \<and> int (card {w. contains t w \<and> (\<exists>u. w = p @ u)}) < k \<longrightarrow>
        set (complete_prefix t p k) = {w. contains t w \<and> (\<exists>u. w = p @ u)} \<and> distinct (complete_prefix t p k))
   \<and> complete_prefix t p 0 = []
   \<and> (trace t p = None \<longrightarrow> complete_prefix t p k = [])"
proof -
  have "length (complete_prefix t p k) \<le> nat k"
    using results_length [of t p k] by (simp add: complete_prefix_def)
  then have "0 \<le> k \<longrightarrow> int (length (complete_prefix t p k)) \<le> k"
    by linarith
  moreover have "dict_ok (root_node t) \<and> int (card {w. contains t w \<and> (\<exists>u. w = p @ u)}) < k \<longrightarrow>
        set (complete_prefix t p k) = {w. contains t w \<and> (\<exists>u. w = p @ u)} \<and> distinct (complete_prefix t p k)"
    using complete_all [of t p k] by simp
  ultimately show ?thesis
    using complete_zero complete_no_path by blast
qed

theorem complete_bounded_witness:
  "(0::int) \<le> 5
   \<and> int (length (complete_prefix (insert_word (insert_word (insert_word new_trie ''cat'' 3) ''car'' 9) ''can'' 1) ''ca'' 5)) \<le> 5
   \<and> dict_ok (root_node (insert_word (insert_word (insert_word new_trie ''cat'' 3) ''car'' 9) ''can'' 1))
   \<and> int (card {w. contains (insert_word (insert_word (insert_word new_trie ''cat'' 3) ''car'' 9) ''can'' 1) w
                    \<and> (\<exists>u. w = ''ca'' @ u)}) < 5
   \<and> set (complete_prefix (insert_word (insert_word (insert_word new_trie ''cat'' 3) ''car'' 9) ''can'' 1) ''ca'' 5)
       = {w. contains (insert_word (insert_word (insert_word new_trie ''cat'' 3) ''car'' 9) ''can'' 1) w
             \<and> (\<exists>u. w = ''ca'' @ u)}
   \<and> trace (insert_word (insert_word (insert_word new_trie ''cat'' 3) ''car'' 9) ''can'' 1) ''x'' = None
   \<and> complete_prefix (insert_word (insert_word (insert_word new_trie ''cat'' 3) ''car'' 9) ''can'' 1) ''x'' 5 = []"
proof -
  let ?t = "insert_word (insert_word (insert_word new_trie ''cat'' 3) ''car'' 9) ''can'' 1"
  have t: "?t = \<lparr>root_node = Node [(CHR ''c'', Node [(CHR ''a'',
        Node [(CHR ''t'', Node [] True 3), (CHR ''r'', Node [] True 9), (CHR ''n'', Node [] True 1)]
          False 0)] False 0)] False 0, count_words = 3, count_nodes = 6\<rparr>"
    by (simp add: insert_word_def new_trie_def new_node_def)
  have k: "(0::int) \<le> 5"
    by simp
  have ok: "dict_ok (root_node ?t)"
    unfolding t by simp
  have "{w. contains ?t w \<and> (\<exists>u. w = ''ca'' @ u)} = {''can'', ''car'', ''cat''}"
    using stored_prefix [of ?t "''ca''"]
    unfolding t by (simp add: entries.simps)
  then have few: "int (card {w. contains ?t w \<and> (\<exists>u. w = ''ca'' @ u)}) < 5"
    by simp
  have no: "trace ?t ''x'' = None"
    unfolding t by (simp add: trace_def)
  note a = complete_bounded [of 5 ?t "''ca''"]
  note b = complete_bounded [of 5 ?t "''x''"]
  from a k have "int (length (complete_prefix ?t ''ca'' 5)) \<le> 5"
    by (elim conjE) simp
  moreover from a ok few have "set (complete_prefix ?t ''ca'' 5) = {w. contains ?t w \<and> (\<exists>u. w = ''ca'' @ u)}"
    by (elim conjE) simp
  moreover from b no have "complete_prefix ?t ''x'' 5 = []"
    by (elim conjE) simp
  ultimately show ?thesis
    using k ok few no by (intro conjI)
qed

subsection \<open>Inserting a stored word again\<close>

text \<open>
  C6. When \<open>w\<close> is stored, \<^verbatim>\<open>insert(w, s)\<close> leaves \<^verbatim>\<open>_count_words\<close>, \<^verbatim>\<open>_count_nodes\<close> and the
  shape of the tree as they are, sets the score of \<open>w\<close> to \<open>s\<close>, leaves the score of every
  other word as it is, and \<open>w\<close> is still contained.
\<close>

theorem reinsert_updates_score:
  "contains t w \<Longrightarrow>
     count_words (insert_word t w s) = count_words t
     \<and> count_nodes (insert_word t w s) = count_nodes t
     \<and> shape (root_node (insert_word t w s)) = shape (root_node t)
     \<and> score_of (insert_word t w s) w = Some s
     \<and> (\<forall>v. v \<noteq> w \<longrightarrow> score_of (insert_word t w s) v = score_of t v)
     \<and> contains (insert_word t w s) w"
proof -
  assume c: "contains t w"
  obtain r cw cn where r: "insert_loop (root_node t) w s (count_words t) (count_nodes t) = (r, cw, cn)"
    by (cases "insert_loop (root_node t) w s (count_words t) (count_nodes t)") auto
  have eq: "insert_word t w s = \<lparr>root_node = r, count_words = cw, count_nodes = cn\<rparr>"
    by (simp add: insert_word_def r)
  have "has (root_node t) w"
    using c by (simp add: contains_has)
  from insert_loop_existing [OF this r] entry_insert_loop [OF r] contains_insert [of t w s w]
  show ?thesis
    unfolding eq by (simp add: score_of_entry)
qed

theorem reinsert_updates_score_witness:
  "contains (insert_word (insert_word new_trie ''cat'' 3) ''car'' 9) ''cat''
   \<and> count_words (insert_word (insert_word (insert_word new_trie ''cat'' 3) ''car'' 9) ''cat'' 7) = 2
   \<and> count_nodes (insert_word (insert_word (insert_word new_trie ''cat'' 3) ''car'' 9) ''cat'' 7) = 5
   \<and> score_of (insert_word (insert_word (insert_word new_trie ''cat'' 3) ''car'' 9) ''cat'' 7) ''cat'' = Some 7
   \<and> score_of (insert_word (insert_word (insert_word new_trie ''cat'' 3) ''car'' 9) ''cat'' 7) ''car'' = Some 9"
proof -
  let ?t = "insert_word (insert_word new_trie ''cat'' 3) ''car'' 9"
  have t: "?t = \<lparr>root_node = Node [(CHR ''c'', Node [(CHR ''a'',
        Node [(CHR ''t'', Node [] True 3), (CHR ''r'', Node [] True 9)]
          False 0)] False 0)] False 0, count_words = 2, count_nodes = 5\<rparr>"
    by (simp add: insert_word_def new_trie_def new_node_def)
  have c: "contains ?t ''cat''"
    unfolding t by (simp add: contains_def trace_def)
  have old: "count_words ?t = 2" "count_nodes ?t = 5" "score_of ?t ''car'' = Some 9"
    unfolding t by (simp_all add: score_of_def trace_def)
  have ne: "''car'' \<noteq> ''cat''"
    by simp
  note a = reinsert_updates_score [OF c, of 7]
  from a old have "count_words (insert_word ?t ''cat'' 7) = 2" "count_nodes (insert_word ?t ''cat'' 7) = 5"
    "score_of (insert_word ?t ''cat'' 7) ''cat'' = Some 7"
    by simp_all
  moreover from a ne old(3) have "score_of (insert_word ?t ''cat'' 7) ''car'' = Some 9"
    by (elim conjE) simp
  ultimately show ?thesis
    using c by (intro conjI)
qed

subsection \<open>The empty word\<close>


text \<open>
  On equal scores the empty word is the smallest pair of the heap, hence the first to leave a
  full heap, as in the completion on equal scores above: with \<^verbatim>\<open>"a"\<close> and the empty word both
  at score 5, \<^verbatim>\<open>complete("", 1)\<close> is \<^verbatim>\<open>["a"]\<close>, where the documented order (score descending,
  then the word ascending) has the empty word first.
\<close>

lemma empty_word_equal_score:
  "complete_prefix (insert_word (insert_word new_trie ''a'' 5) [] 5) [] 1 = [''a'']"
  by code_simp



end
